theory Spec2Isabelle
  imports Main
begin

section \<open>Data model of \<^verbatim>\<open>server.js\<close>\<close>

text \<open>
  The server keeps one MongoDB collection of user documents, reached through the
  Mongoose model \<^verbatim>\<open>User\<close>. A request body carries \<^verbatim>\<open>username\<close> and
  \<^verbatim>\<open>password\<close>; a field is \<open>None\<close> when the body does not have it (or has
  \<^verbatim>\<open>null\<close>). Strings are lists of characters and \<open>length\<close> is what
  \<^verbatim>\<open>.length\<close> counts. Time stamps are the milliseconds \<^verbatim>\<open>Date.now()\<close> returns.
  The store is taken to answer every call: a lost connection is not modelled.
\<close>

text \<open>
  \<^verbatim>\<open>bodyParser.json()\<close> hands the routes whatever JSON the body holds, so the
  password need not be a string. \<open>Str s\<close> is a string. \<open>Other t s\<close> stands for any
  other value (a number, a boolean, an array, an object) by what the routes can observe of
  it: whether it is truthy (\<open>t\<close>), and the string the cast of Mongoose to the type
  \<^verbatim>\<open>String\<close> of the schema makes of it (\<open>s\<close>; \<open>None\<close> when the cast fails, as
  it does for an object). The number 12345 is \<open>Other True (Some ''12345'')\<close>. The
  username is taken to be a string: what a filter that is not a string selects is settled
  inside Mongoose and MongoDB, not in the routes.
\<close>

datatype field = Str string | Other bool "string option"

type_synonym timestamp = int

text \<open>What \<^verbatim>\<open>res.json\<close> is given; a \<^verbatim>\<open>Date\<close> is kept apart from a string.\<close>

datatype json = JBool bool | JStr string | JDate timestamp | JObj "(string \<times> json) list"

record response =
  status :: nat
  body :: json

text \<open>A stored document of the collection: the fields of \<^verbatim>\<open>userSchema\<close> and \<^verbatim>\<open>_id\<close>.\<close>

record user =
  oid :: nat
  username :: string
  password :: string
  createdAt :: timestamp
  lastLogin :: "timestamp option"

type_synonym collection = "user list"

datatype path = Username | Password | CreatedAt | LastLogin

text \<open>
  A Mongoose document in memory: its fields, whether it was built by \<^verbatim>\<open>new User\<close>
  and not yet saved, and the paths set since it was built or loaded.
\<close>

record document =
  doc :: user
  isNew :: bool
  modifiedPaths :: "path set"

text \<open>
  What a request reads from outside the program: the clock (\<^verbatim>\<open>Date.now()\<close>), the
  random salt of \<^verbatim>\<open>bcrypt.genSalt(10)\<close> and the fresh \<^verbatim>\<open>ObjectId\<close> of
  \<^verbatim>\<open>new User\<close>.
\<close>

record env =
  now :: timestamp
  salt :: string
  fresh_oid :: nat

text \<open>
  The \<^verbatim>\<open>bcrypt\<close> package is not part of the repository: its two functions the server
  calls are parameters of the model. \<open>bcrypt_hash B p s\<close> is
  \<^verbatim>\<open>bcrypt.hash(p, s)\<close>, \<open>bcrypt_compare B p h\<close> is \<^verbatim>\<open>bcrypt.compare(p, h)\<close>.
\<close>

record bcrypt =
  bcrypt_hash :: "string \<Rightarrow> string \<Rightarrow> string"
  bcrypt_compare :: "string \<Rightarrow> string \<Rightarrow> bool"

text \<open>The calls a handler makes on the store and on \<^verbatim>\<open>bcrypt\<close>, in order.\<close>

datatype event =
    FindOne string
  | GenSalt
  | Hash string
  | Compare field
  | InsertOne user
  | UpdateOne nat

datatype save_error = ValidationError | DuplicateKey | DocumentNotFound

section \<open>Mongoose: schema, hook, queries\<close>

text \<open>\<^verbatim>\<open>User.findOne({ username })\<close>: the first document with that username.\<close>

definition findOne :: "collection \<Rightarrow> string \<Rightarrow> document option" where
  "findOne c u =
     (case find (\<lambda>x. username x = u) c of
        None \<Rightarrow> None
      | Some x \<Rightarrow> Some \<lparr>doc = x, isNew = False, modifiedPaths = {}\<rparr>)"

text \<open>
  \<^verbatim>\<open>new User({ username, password })\<close>: \<^verbatim>\<open>createdAt\<close> takes its default
  \<^verbatim>\<open>Date.now\<close>, \<^verbatim>\<open>lastLogin\<close> stays undefined.
\<close>

definition new_User :: "env \<Rightarrow> string \<Rightarrow> string \<Rightarrow> document" where
  "new_User e u p =
     \<lparr>doc = \<lparr>oid = fresh_oid e, username = u, password = p, createdAt = now e,
             lastLogin = None\<rparr>,
      isNew = True, modifiedPaths = {Username, Password}\<rparr>"

definition isModified :: "document \<Rightarrow> path \<Rightarrow> bool" where
  "isModified d p = (p \<in> modifiedPaths d)"

text \<open>\<^verbatim>\<open>user.lastLogin = t\<close>\<close>

definition set_lastLogin :: "document \<Rightarrow> timestamp \<Rightarrow> document" where
  "set_lastLogin d t =
     d\<lparr>doc := (doc d)\<lparr>lastLogin := Some t\<rparr>,
       modifiedPaths := insert LastLogin (modifiedPaths d)\<rparr>"

text \<open>
  The validators of \<^verbatim>\<open>userSchema\<close>: \<^verbatim>\<open>username\<close> required, \<^verbatim>\<open>minlength: 3\<close>,
  \<^verbatim>\<open>maxlength: 30\<close>; \<^verbatim>\<open>password\<close> required, \<^verbatim>\<open>minlength: 6\<close>. Mongoose runs
  them at \<^verbatim>\<open>save()\<close>, before the \<^verbatim>\<open>pre('save')\<close> hooks of the schema.
\<close>

definition validate :: "document \<Rightarrow> bool" where
  "validate d =
     (username (doc d) \<noteq> [] \<and> 3 \<le> length (username (doc d)) \<and>
      length (username (doc d)) \<le> 30 \<and>
      password (doc d) \<noteq> [] \<and> 6 \<le> length (password (doc d)))"

text \<open>\<^verbatim>\<open>userSchema.pre('save', ...)\<close>: the hook that hashes the password.\<close>

definition pre_save :: "bcrypt \<Rightarrow> env \<Rightarrow> document \<Rightarrow> document \<times> event list" where
  "pre_save B e d =
     (if \<not> isModified d Password then (d, [])
      else (d\<lparr>doc := (doc d)\<lparr>password := bcrypt_hash B (password (doc d)) (salt e)\<rparr>\<rparr>,
            [GenSalt, Hash (password (doc d))]))"

text \<open>
  The insert of a new document. The collection has the unique index of \<^verbatim>\<open>_id\<close> and,
  from \<^verbatim>\<open>unique: true\<close>, the unique index of \<^verbatim>\<open>username\<close>: the storage engine
  refuses a document that repeats either.
\<close>

definition insertOne :: "collection \<Rightarrow> user \<Rightarrow> save_error + collection" where
  "insertOne c x =
     (if oid x \<in> oid ` set c \<or> username x \<in> username ` set c then Inl DuplicateKey
      else Inr (c @ [x]))"

text \<open>The fields an update \<^verbatim>\<open>$set\<close>s: those of the modified paths.\<close>

definition apply_set :: "path set \<Rightarrow> user \<Rightarrow> user \<Rightarrow> user" where
  "apply_set ps src dst =
     \<lparr>oid = oid dst,
      username = (if Username \<in> ps then username src else username dst),
      password = (if Password \<in> ps then password src else password dst),
      createdAt = (if CreatedAt \<in> ps then createdAt src else createdAt dst),
      lastLogin = (if LastLogin \<in> ps then lastLogin src else lastLogin dst)\<rparr>"

text \<open>The update of the first stored document with the \<^verbatim>\<open>_id\<close>; \<open>None\<close> when there is none.\<close>

fun update_first :: "collection \<Rightarrow> nat \<Rightarrow> (user \<Rightarrow> user) \<Rightarrow> collection option" where
  "update_first [] i f = None"
| "update_first (x # xs) i f =
     (if oid x = i then Some (f x # xs) else map_option ((#) x) (update_first xs i f))"

definition updateOne :: "collection \<Rightarrow> document \<Rightarrow> save_error + collection" where
  "updateOne c d =
     (if Username \<in> modifiedPaths d \<and>
         (\<exists>x \<in> set c. oid x \<noteq> oid (doc d) \<and> username x = username (doc d))
      then Inl DuplicateKey
      else (case update_first c (oid (doc d)) (apply_set (modifiedPaths d) (doc d)) of
              None \<Rightarrow> Inl DocumentNotFound
            | Some c' \<Rightarrow> Inr c'))"

text \<open>
  \<^verbatim>\<open>document.save()\<close>: validation of the document, then the hook, then the write (an
  insert for a new document, an update of the modified paths otherwise). The result is the
  error thrown or the saved document, with the collection after the call and the calls
  made.
\<close>

definition save ::
  "bcrypt \<Rightarrow> collection \<Rightarrow> env \<Rightarrow> document \<Rightarrow> (save_error + document) \<times> collection \<times> event list"
where
  "save B c e d =
     (if \<not> validate d then (Inl ValidationError, c, [])
      else
        (case pre_save B e d of (d', evs) \<Rightarrow>
           if isNew d' then
             (case insertOne c (doc d') of
                Inl err \<Rightarrow> (Inl err, c, evs @ [InsertOne (doc d')])
              | Inr c' \<Rightarrow>
                  (Inr (d'\<lparr>isNew := False, modifiedPaths := {}\<rparr>), c',
                   evs @ [InsertOne (doc d')]))
           else
             (case updateOne c d' of
                Inl err \<Rightarrow> (Inl err, c, evs @ [UpdateOne (oid (doc d'))])
              | Inr c' \<Rightarrow>
                  (Inr (d'\<lparr>modifiedPaths := {}\<rparr>), c',
                   evs @ [UpdateOne (oid (doc d'))]))))"

section \<open>The routes\<close>

text \<open>JavaScript truthiness of a body field: undefined and the empty string are falsy.\<close>

definition truthy :: "string option \<Rightarrow> bool" where
  "truthy v = (case v of None \<Rightarrow> False | Some s \<Rightarrow> s \<noteq> [])"

definition truthy_value :: "field option \<Rightarrow> bool" where
  "truthy_value v =
     (case v of None \<Rightarrow> False | Some (Str s) \<Rightarrow> s \<noteq> [] | Some (Other t s) \<Rightarrow> t)"

text \<open>
  What the path \<^verbatim>\<open>password\<close> of a new document holds for a value of the body: the
  string, or the cast of another value. When the cast fails Mongoose leaves the path unset
  (here the empty string) and notes the error, and \<^verbatim>\<open>save()\<close> fails at validation,
  as it does for an unset required path.
\<close>

definition as_string :: "field \<Rightarrow> string" where
  "as_string v =
     (case v of Str s \<Rightarrow> s | Other t s \<Rightarrow> (case s of Some s' \<Rightarrow> s' | None \<Rightarrow> []))"

text \<open>
  \<^verbatim>\<open>await bcrypt.compare(password, user.password)\<close>: the package rejects data that is
  not a string (\<open>None\<close>: the promise rejects and the \<^verbatim>\<open>await\<close> throws); on strings it
  answers whether they match.
\<close>

definition compare :: "bcrypt \<Rightarrow> field \<Rightarrow> string \<Rightarrow> bool option" where
  "compare B v h = (case v of Str s \<Rightarrow> Some (bcrypt_compare B s h) | Other t s \<Rightarrow> None)"

definition failure :: "nat \<Rightarrow> string \<Rightarrow> response" where
  "failure n msg = \<lparr>status = n, body = JObj [(''success'', JBool False), (''message'', JStr msg)]\<rparr>"

definition registered :: "document \<Rightarrow> response" where
  "registered d =
     \<lparr>status = 201,
      body = JObj [(''success'', JBool True),
                   (''message'', JStr ''User registered successfully''),
                   (''user'', JObj [(''username'', JStr (username (doc d))),
                                    (''createdAt'', JDate (createdAt (doc d)))])]\<rparr>"

text \<open>
  \<^verbatim>\<open>POST /api/register\<close>, up to \<^verbatim>\<open>new User\<close>: the check of the two fields, the
  lookup, the answer 409 when the name is taken. It answers, or goes on with the new
  document.
\<close>

definition register_check ::
  "collection \<Rightarrow> env \<Rightarrow> string option \<Rightarrow> field option \<Rightarrow> (response + document) \<times> event list"
where
  "register_check c e u p =
     (if \<not> truthy u \<or> \<not> truthy_value p
      then (Inl (failure 400 ''Username and password are required''), [])
      else
        (case findOne c (the u) of
           Some existingUser \<Rightarrow> (Inl (failure 409 ''Username already exists''), [FindOne (the u)])
         | None \<Rightarrow> (Inr (new_User e (the u) (as_string (the p))), [FindOne (the u)])))"

text \<open>
  \<^verbatim>\<open>POST /api/register\<close>, from \<^verbatim>\<open>await newUser.save()\<close>: 201 with the public view of
  the saved document, or the \<^verbatim>\<open>catch\<close> that answers 500 to whatever \<^verbatim>\<open>save\<close> threw.
\<close>

definition register_save ::
  "bcrypt \<Rightarrow> collection \<Rightarrow> env \<Rightarrow> document \<Rightarrow> response \<times> collection \<times> event list"
where
  "register_save B c e newUser =
     (case save B c e newUser of
        (Inr saved, c', evs) \<Rightarrow> (registered saved, c', evs)
      | (Inl err, c', evs) \<Rightarrow>
          (failure 500 ''Internal server error during registration'', c', evs))"

definition register ::
  "bcrypt \<Rightarrow> collection \<Rightarrow> env \<Rightarrow> string option \<Rightarrow> field option \<Rightarrow>
   response \<times> collection \<times> event list"
where
  "register B c e u p =
     (case register_check c e u p of
        (Inl r, evs) \<Rightarrow> (r, c, evs)
      | (Inr newUser, evs) \<Rightarrow>
          (case register_save B c e newUser of (r, c', evs') \<Rightarrow> (r, c', evs @ evs')))"

text \<open>
  The body of a successful login; a field that is undefined is left out of the JSON.
  The file holds the server twice. The two copies differ, in the routes, only in the
  body of a successful login: the second adds \<^verbatim>\<open>token: 'mock-token-12345'\<close>.
\<close>

datatype variant = Plain | Mock_token

definition logged_in :: "variant \<Rightarrow> document \<Rightarrow> response" where
  "logged_in v d =
     \<lparr>status = 200,
      body = JObj ([(''success'', JBool True), (''message'', JStr ''Login successful'')] @
                   (case v of Plain \<Rightarrow> [] | Mock_token \<Rightarrow> [(''token'', JStr ''mock-token-12345'')]) @
                   [(''user'', JObj ([(''username'', JStr (username (doc d)))] @
                                      (case lastLogin (doc d) of
                                         Some t \<Rightarrow> [(''lastLogin'', JDate t)]
                                       | None \<Rightarrow> [])))])\<rparr>"

text \<open>
  \<^verbatim>\<open>POST /api/login\<close>, up to \<^verbatim>\<open>user.lastLogin = Date.now()\<close>: the check of the two
  fields, the lookup, the comparison of the password with the stored hash. It answers, or
  goes on with the loaded document, stamped. When \<^verbatim>\<open>bcrypt.compare\<close> throws, the
  \<^verbatim>\<open>catch\<close> of the route answers 500.
\<close>

definition login_check ::
  "bcrypt \<Rightarrow> collection \<Rightarrow> env \<Rightarrow> string option \<Rightarrow> field option \<Rightarrow>
   (response + document) \<times> event list"
where
  "login_check B c e u p =
     (if \<not> truthy u \<or> \<not> truthy_value p
      then (Inl (failure 400 ''Username and password are required''), [])
      else
        (case findOne c (the u) of
           None \<Rightarrow> (Inl (failure 401 ''Invalid credentials''), [FindOne (the u)])
         | Some user \<Rightarrow>
             (case compare B (the p) (password (doc user)) of
                None \<Rightarrow>
                  (Inl (failure 500 ''Internal server error during login''),
                   [FindOne (the u), Compare (the p)])
              | Some isMatch \<Rightarrow>
                  if \<not> isMatch
                  then (Inl (failure 401 ''Invalid credentials''),
                        [FindOne (the u), Compare (the p)])
                  else (Inr (set_lastLogin user (now e)),
                        [FindOne (the u), Compare (the p)]))))"

text \<open>\<^verbatim>\<open>POST /api/login\<close>, from \<^verbatim>\<open>await user.save()\<close>.\<close>

definition login_save ::
  "bcrypt \<Rightarrow> variant \<Rightarrow> collection \<Rightarrow> env \<Rightarrow> document \<Rightarrow> response \<times> collection \<times> event list"
where
  "login_save B v c e user =
     (case save B c e user of
        (Inr saved, c', evs) \<Rightarrow> (logged_in v saved, c', evs)
      | (Inl err, c', evs) \<Rightarrow> (failure 500 ''Internal server error during login'', c', evs))"

definition login ::
  "bcrypt \<Rightarrow> variant \<Rightarrow> collection \<Rightarrow> env \<Rightarrow> string option \<Rightarrow> field option \<Rightarrow>
   response \<times> collection \<times> event list"
where
  "login B v c e u p =
     (case login_check B c e u p of
        (Inl r, evs) \<Rightarrow> (r, c, evs)
      | (Inr user, evs) \<Rightarrow>
          (case login_save B v c e user of (r, c', evs') \<Rightarrow> (r, c', evs @ evs')))"

section \<open>Requests in sequence\<close>

datatype request =
    Register "string option" "field option"
  | Login "string option" "field option"

definition handle ::
  "bcrypt \<Rightarrow> variant \<Rightarrow> collection \<Rightarrow> env \<Rightarrow> request \<Rightarrow> response \<times> collection \<times> event list"
where
  "handle B v c e rq =
     (case rq of Register u p \<Rightarrow> register B c e u p | Login u p \<Rightarrow> login B v c e u p)"

text \<open>
  The server answering requests one after the other: the log of each request with what
  it read from outside and its response, and the collection at the end.
\<close>

fun serve ::
  "bcrypt \<Rightarrow> variant \<Rightarrow> collection \<Rightarrow> (env \<times> request) list \<Rightarrow>
   (env \<times> request \<times> response) list \<times> collection"
where
  "serve B v c [] = ([], c)"
| "serve B v c ((e, rq) # rest) =
     (case handle B v c e rq of (r, c', evs) \<Rightarrow>
        (case serve B v c' rest of (log, c'') \<Rightarrow> ((e, rq, r) # log, c'')))"

section \<open>Requests in flight together\<close>

text \<open>
  Node runs a handler until its next \<^verbatim>\<open>await\<close>, and MongoDB applies one operation on
  one document at a time. Between the lookup (\<^verbatim>\<open>await User.findOne\<close>) and the write
  (\<^verbatim>\<open>await ....save()\<close>) of one request, the operations of other requests can take
  place. A request in flight is at its start, or past the lookup and holding the document
  it is about to save, or answered. What lies between the two storage operations of a
  request (\<^verbatim>\<open>bcrypt.compare\<close>, \<^verbatim>\<open>Date.now()\<close>, the validators, the hook) touches no
  shared state, so it is run with the operation that precedes or follows it; the clock
  reading of a request is the one of its \<open>env\<close>.
\<close>

datatype phase = Start | Saving document | Done response

type_synonym proc = "request \<times> env \<times> phase"

definition proc_step :: "bcrypt \<Rightarrow> variant \<Rightarrow> collection \<Rightarrow> proc \<Rightarrow> proc \<times> collection" where
  "proc_step B v c pr =
     (case pr of (rq, e, ph) \<Rightarrow>
        (case ph of
           Start \<Rightarrow>
             (case rq of
                Register u p \<Rightarrow>
                  (case fst (register_check c e u p) of
                     Inl r \<Rightarrow> ((rq, e, Done r), c)
                   | Inr d \<Rightarrow> ((rq, e, Saving d), c))
              | Login u p \<Rightarrow>
                  (case fst (login_check B c e u p) of
                     Inl r \<Rightarrow> ((rq, e, Done r), c)
                   | Inr d \<Rightarrow> ((rq, e, Saving d), c)))
         | Saving d \<Rightarrow>
             (case rq of
                Register u p \<Rightarrow>
                  (case register_save B c e d of (r, c', evs) \<Rightarrow> ((rq, e, Done r), c'))
              | Login u p \<Rightarrow>
                  (case login_save B v c e d of (r, c', evs) \<Rightarrow> ((rq, e, Done r), c')))
         | Done r \<Rightarrow> (pr, c)))"

text \<open>
  A schedule names, step by step, the request that moves. A request that is answered, or
  a number that names none, leaves everything as it is.
\<close>

fun run ::
  "bcrypt \<Rightarrow> variant \<Rightarrow> nat list \<Rightarrow> collection \<times> proc list \<Rightarrow> collection \<times> proc list"
where
  "run B v [] s = s"
| "run B v (i # sched) (c, ps) =
     (if i < length ps
      then (case proc_step B v c (ps ! i) of (pr, c') \<Rightarrow> run B v sched (c', ps[i := pr]))
      else run B v sched (c, ps))"

definition answers :: "proc list \<Rightarrow> nat option list" where
  "answers ps =
     map (\<lambda>pr. case snd (snd pr) of Done r \<Rightarrow> Some (status r) | _ \<Rightarrow> None) ps"

text \<open>A registration of the username \<open>u\<close> that was answered 201.\<close>

definition succeeded :: "string \<Rightarrow> proc \<Rightarrow> bool" where
  "succeeded u pr =
     (case pr of
        (Register (Some u') p, e, Done r) \<Rightarrow> u' = u \<and> status r = 201
      | _ \<Rightarrow> False)"

text \<open>
  What holds of a request past its lookup: a registration holds a new document with the
  username of the request; a login holds a loaded document whose username was not set.
\<close>

definition wf_proc :: "proc \<Rightarrow> bool" where
  "wf_proc pr =
     (case pr of
        (Register u p, e, Saving d) \<Rightarrow> isNew d \<and> u = Some (username (doc d))
      | (Login u p, e, Saving d) \<Rightarrow> \<not> isNew d \<and> Username \<notin> modifiedPaths d
      | _ \<Rightarrow> True)"

text \<open>
  A registration of the username \<open>u\<close> with a password that is truthy and makes a
  string of at least 6 characters, and an \<^verbatim>\<open>_id\<close> that the collection \<open>c0\<close> does
  not use, at any point of its course (answered, it is with 201, 409 or 500); and a request
  that is not answered yet.
\<close>

definition contender :: "collection \<Rightarrow> string \<Rightarrow> proc \<Rightarrow> bool" where
  "contender c0 u pr =
     (case pr of
        (Register (Some u') (Some p), e, ph) \<Rightarrow>
          u' = u \<and> truthy_value (Some p) \<and> 6 \<le> length (as_string p) \<and>
          fresh_oid e \<notin> oid ` set c0 \<and>
          (case ph of
             Start \<Rightarrow> True
           | Saving d \<Rightarrow> d = new_User e u (as_string p)
           | Done r \<Rightarrow> status r \<in> {201, 409, 500})
      | _ \<Rightarrow> False)"

definition unanswered :: "proc \<Rightarrow> bool" where
  "unanswered pr = (case snd (snd pr) of Done r \<Rightarrow> False | _ \<Rightarrow> True)"

text \<open>The number of stored documents with the username \<open>u\<close>.\<close>

definition stored_as :: "string \<Rightarrow> collection \<Rightarrow> nat" where
  "stored_as u c = count_list (map username c) u"

section \<open>Auxiliary notions for the statements\<close>

text \<open>The document \<^verbatim>\<open>save\<close> inserts for a registration: the password is the hash.\<close>

definition stored_user :: "bcrypt \<Rightarrow> env \<Rightarrow> string \<Rightarrow> string \<Rightarrow> user" where
  "stored_user B e u p =
     \<lparr>oid = fresh_oid e, username = u, password = bcrypt_hash B p (salt e),
      createdAt = now e, lastLogin = None\<rparr>"

text \<open>Every key of a JSON value, at any depth, and every string in it.\<close>

fun json_keys :: "json \<Rightarrow> string list" where
  "json_keys (JObj kvs) = concat (map (\<lambda>kv. fst kv # json_keys (snd kv)) kvs)"
| "json_keys (JBool b) = []"
| "json_keys (JStr s) = []"
| "json_keys (JDate t) = []"

fun json_strings :: "json \<Rightarrow> string list" where
  "json_strings (JObj kvs) = concat (map (\<lambda>kv. json_strings (snd kv)) kvs)"
| "json_strings (JBool b) = []"
| "json_strings (JStr s) = [s]"
| "json_strings (JDate t) = []"

text \<open>
  A stand-in for \<^verbatim>\<open>bcrypt\<close> to run the model on concrete requests: the hash is the
  salt followed by the password, and a password matches a hash that ends with it after a
  salt of seven characters.
\<close>

definition test_bcrypt :: bcrypt where
  "test_bcrypt = \<lparr>bcrypt_hash = (\<lambda>p s. s @ p), bcrypt_compare = (\<lambda>p h. drop 7 h = p)\<rparr>"

definition test_env :: "timestamp \<Rightarrow> nat \<Rightarrow> env" where
  "test_env t i = \<lparr>now = t, salt = ''$2b$10$'', fresh_oid = i\<rparr>"

text \<open>
  The \<^verbatim>\<open>lastLogin\<close> of the document found under a username, and the clock reading of
  the most recent login of a username that a log shows answered 200 (\<open>acc\<close> when the
  log shows none).
\<close>

definition lastLogin_of :: "collection \<Rightarrow> string \<Rightarrow> timestamp option" where
  "lastLogin_of c u = (case findOne c u of None \<Rightarrow> None | Some d \<Rightarrow> lastLogin (doc d))"

definition successful_login :: "string \<Rightarrow> request \<Rightarrow> response \<Rightarrow> bool" where
  "successful_login u rq r =
     (case rq of Login (Some u') p \<Rightarrow> u' = u \<and> status r = 200 | _ \<Rightarrow> False)"

fun latest_login ::
  "string \<Rightarrow> (env \<times> request \<times> response) list \<Rightarrow> timestamp option \<Rightarrow> timestamp option"
where
  "latest_login u [] acc = acc"
| "latest_login u ((e, rq, r) # log) acc =
     latest_login u log (if successful_login u rq r then Some (now e) else acc)"

text \<open>The JSON number 12345 as the password of a body.\<close>

definition number_12345 :: field where
  "number_12345 = Other True (Some ''12345'')"

text \<open>Requests in flight together, for the concrete runs.\<close>

definition two_alices :: "proc list" where
  "two_alices =
     [(Register (Some ''alice'') (Some (Str ''secret1'')), test_env 1000 7, Start),
      (Register (Some ''alice'') (Some (Str ''hunter22'')), test_env 1001 8, Start)]"

definition three_bobs :: "proc list" where
  "three_bobs =
     [(Register (Some ''bob'') (Some (Str ''secret1'')), test_env 1000 7, Start),
      (Register (Some ''bob'') (Some (Str ''secret2'')), test_env 1001 8, Start),
      (Register (Some ''bob'') (Some (Str ''secret3'')), test_env 1002 9, Start)]"

definition two_logins :: "proc list" where
  "two_logins =
     [(Login (Some ''alice'') (Some (Str ''secret1'')), test_env 5000 8, Start),
      (Login (Some ''alice'') (Some (Str ''secret1'')), test_env 6000 9, Start)]"

text \<open>A collection with one registered user, for the concrete runs.\<close>

definition alice :: "timestamp option \<Rightarrow> user" where
  "alice l =
     \<lparr>oid = 7, username = ''alice'', password = ''$2b$10$secret1'', createdAt = 1000,
      lastLogin = l\<rparr>"

definition alice_store :: collection where
  "alice_store = [alice None]"

section \<open>Properties\<close>

subsection \<open>Lookups and updates\<close>

lemma findOne_None_iff: "findOne c u = None \<longleftrightarrow> u \<notin> username ` set c"
  by (induction c) (auto simp: findOne_def split: option.splits)

lemma findOne_SomeD:
  "findOne c u = Some d \<Longrightarrow>
     doc d \<in> set c \<and> username (doc d) = u \<and> \<not> isNew d \<and> modifiedPaths d = {}"
  by (induction c) (auto simp: findOne_def split: option.splits if_splits)

lemma status_failure [simp]: "status (failure n m) = n"
  by (simp add: failure_def)

lemma status_registered [simp]: "status (registered d) = 201"
  by (simp add: registered_def)

lemma status_logged_in [simp]: "status (logged_in v d) = 200"
  by (simp add: logged_in_def)

lemma truthy_value_simps [simp]:
  "truthy_value None = False"
  "truthy_value (Some (Str s)) = (s \<noteq> [])"
  "truthy_value (Some (Other t c)) = t"
  by (simp_all add: truthy_value_def)

lemma as_string_simps [simp]:
  "as_string (Str s) = s"
  "as_string (Other t (Some s)) = s"
  "as_string (Other t None) = []"
  by (simp_all add: as_string_def)

lemma compare_simps [simp]:
  "compare B (Str s) h = Some (bcrypt_compare B s h)"
  "compare B (Other t c) h = None"
  by (simp_all add: compare_def)

lemma update_first_Some:
  "i \<in> oid ` set c \<Longrightarrow> \<exists>k<length c. oid (c ! k) = i \<and> update_first c i f = Some (c[k := f (c ! k)])"
proof (induction c)
  case Nil
  then show ?case by simp
next
  case (Cons x xs)
  show ?case
  proof (cases "oid x = i")
    case True
    then have "oid ((x # xs) ! 0) = i \<and> update_first (x # xs) i f = Some ((x # xs)[0 := f ((x # xs) ! 0)])"
      by simp
    then show ?thesis by blast
  next
    case False
    with Cons.prems have "i \<in> oid ` set xs" by auto
    then obtain k where k: "k < length xs" "oid (xs ! k) = i"
      "update_first xs i f = Some (xs[k := f (xs ! k)])"
      using Cons.IH by blast
    with False have "Suc k < length (x # xs) \<and> oid ((x # xs) ! Suc k) = i \<and>
        update_first (x # xs) i f = Some ((x # xs)[Suc k := f ((x # xs) ! Suc k)])"
      by simp
    then show ?thesis by blast
  qed
qed

lemma update_first_None: "i \<notin> oid ` set c \<Longrightarrow> update_first c i f = None"
  by (induction c) auto

lemma apply_set_lastLogin: "apply_set {LastLogin} src dst = dst\<lparr>lastLogin := lastLogin src\<rparr>"
  by (simp add: apply_set_def)

subsection \<open>What \<open>save\<close> does in the two routes\<close>

lemma save_new:
  "save B c e (new_User e u p) =
     (if 3 \<le> length u \<and> length u \<le> 30 \<and> 6 \<le> length p then
        (if fresh_oid e \<in> oid ` set c \<or> u \<in> username ` set c
         then (Inl DuplicateKey, c, [GenSalt, Hash p, InsertOne (stored_user B e u p)])
         else (Inr \<lparr>doc = stored_user B e u p, isNew = False, modifiedPaths = {}\<rparr>,
               c @ [stored_user B e u p],
               [GenSalt, Hash p, InsertOne (stored_user B e u p)]))
      else (Inl ValidationError, c, []))"
  by (auto simp: save_def validate_def pre_save_def isModified_def new_User_def insertOne_def
      stored_user_def)

lemma save_loaded:
  assumes "\<not> isNew d" "modifiedPaths d = {}"
  shows "save B c e (set_lastLogin d t) =
     (if \<not> validate d then (Inl ValidationError, c, [])
      else (case update_first c (oid (doc d)) (\<lambda>x. x\<lparr>lastLogin := Some t\<rparr>) of
              None \<Rightarrow> (Inl DocumentNotFound, c, [UpdateOne (oid (doc d))])
            | Some c' \<Rightarrow>
                (Inr \<lparr>doc = (doc d)\<lparr>lastLogin := Some t\<rparr>, isNew = False, modifiedPaths = {}\<rparr>,
                 c', [UpdateOne (oid (doc d))])))"
proof -
  define d' where "d' = set_lastLogin d t"
  have v: "validate d' = validate d"
    by (simp add: d'_def validate_def set_lastLogin_def)
  have m: "modifiedPaths d' = {LastLogin}" "isNew d' = False"
    "doc d' = (doc d)\<lparr>lastLogin := Some t\<rparr>"
    using assms by (simp_all add: d'_def set_lastLogin_def)
  have f: "apply_set {LastLogin} ((doc d)\<lparr>lastLogin := Some t\<rparr>) = (\<lambda>x. x\<lparr>lastLogin := Some t\<rparr>)"
    by (rule ext) (simp add: apply_set_lastLogin)
  have r: "d'\<lparr>modifiedPaths := {}\<rparr> =
      \<lparr>doc = (doc d)\<lparr>lastLogin := Some t\<rparr>, isNew = False, modifiedPaths = {}\<rparr>"
    using m by (cases d') simp
  have p: "pre_save B e d' = (d', [])"
    by (simp add: pre_save_def isModified_def m)
  have "save B c e d' =
     (if \<not> validate d then (Inl ValidationError, c, [])
      else (case update_first c (oid (doc d)) (\<lambda>x. x\<lparr>lastLogin := Some t\<rparr>) of
              None \<Rightarrow> (Inl DocumentNotFound, c, [UpdateOne (oid (doc d))])
            | Some c' \<Rightarrow>
                (Inr \<lparr>doc = (doc d)\<lparr>lastLogin := Some t\<rparr>, isNew = False, modifiedPaths = {}\<rparr>,
                 c', [UpdateOne (oid (doc d))])))"
    unfolding save_def v p
    by (simp add: m updateOne_def f r split: option.splits)
  then show ?thesis
    by (simp add: d'_def)
qed

subsection \<open>The two routes, case by case\<close>

lemma register_cases:
  "register B c e u p =
     (if \<not> truthy u \<or> \<not> truthy_value p
      then (failure 400 ''Username and password are required'', c, [])
      else if the u \<in> username ` set c
      then (failure 409 ''Username already exists'', c, [FindOne (the u)])
      else if \<not> (3 \<le> length (the u) \<and> length (the u) \<le> 30 \<and>
                  6 \<le> length (as_string (the p)))
      then (failure 500 ''Internal server error during registration'', c, [FindOne (the u)])
      else if fresh_oid e \<in> oid ` set c
      then (failure 500 ''Internal server error during registration'', c,
            [FindOne (the u), GenSalt, Hash (as_string (the p)),
             InsertOne (stored_user B e (the u) (as_string (the p)))])
      else (registered \<lparr>doc = stored_user B e (the u) (as_string (the p)), isNew = False,
                        modifiedPaths = {}\<rparr>,
            c @ [stored_user B e (the u) (as_string (the p))],
            [FindOne (the u), GenSalt, Hash (as_string (the p)),
             InsertOne (stored_user B e (the u) (as_string (the p)))]))"
proof (cases "findOne c (the u)")
  case None
  then have "the u \<notin> username ` set c"
    by (simp add: findOne_None_iff)
  with None show ?thesis
    by (simp add: register_def register_check_def register_save_def save_new)
next
  case (Some d)
  then have "the u \<in> username ` set c"
    using findOne_None_iff [of c "the u"] by simp
  with Some show ?thesis
    by (simp add: register_def register_check_def)
qed

lemma login_cases:
  "login B v c e u p =
     (if \<not> truthy u \<or> \<not> truthy_value p
      then (failure 400 ''Username and password are required'', c, [])
      else
        (case findOne c (the u) of
           None \<Rightarrow> (failure 401 ''Invalid credentials'', c, [FindOne (the u)])
         | Some d \<Rightarrow>
             (case compare B (the p) (password (doc d)) of
                None \<Rightarrow>
                  (failure 500 ''Internal server error during login'', c,
                   [FindOne (the u), Compare (the p)])
              | Some isMatch \<Rightarrow>
                  if \<not> isMatch
                  then (failure 401 ''Invalid credentials'', c,
                        [FindOne (the u), Compare (the p)])
                  else if \<not> validate d
                  then (failure 500 ''Internal server error during login'', c,
                        [FindOne (the u), Compare (the p)])
                  else
                    (case update_first c (oid (doc d)) (\<lambda>x. x\<lparr>lastLogin := Some (now e)\<rparr>) of
                       None \<Rightarrow>
                         (failure 500 ''Internal server error during login'', c,
                          [FindOne (the u), Compare (the p), UpdateOne (oid (doc d))])
                     | Some c' \<Rightarrow>
                         (logged_in v \<lparr>doc = (doc d)\<lparr>lastLogin := Some (now e)\<rparr>,
                                       isNew = False, modifiedPaths = {}\<rparr>,
                          c', [FindOne (the u), Compare (the p), UpdateOne (oid (doc d))])))))"
proof (cases "findOne c (the u)")
  case None
  then show ?thesis
    by (simp add: login_def login_check_def)
next
  case (Some d)
  then have "\<not> isNew d" "modifiedPaths d = {}"
    using findOne_SomeD by blast+
  then show ?thesis
    using Some
    by (simp add: login_def login_check_def login_save_def save_loaded split: option.splits)
qed

lemma login_success_store:
  assumes "status (fst (login B v c e u p)) = 200"
  shows "\<exists>k<length c. fst (snd (login B v c e u p)) = c[k := (c ! k)\<lparr>lastLogin := Some (now e)\<rparr>]"
proof -
  from assms obtain d c' where d: "findOne c (the u) = Some d"
    and u: "update_first c (oid (doc d)) (\<lambda>x. x\<lparr>lastLogin := Some (now e)\<rparr>) = Some c'"
    and c': "fst (snd (login B v c e u p)) = c'"
    by (auto simp: login_cases split: option.splits if_splits)
  from d have "oid (doc d) \<in> oid ` set c"
    using findOne_SomeD by blast
  from update_first_Some [OF this, of "\<lambda>x. x\<lparr>lastLogin := Some (now e)\<rparr>"] u
  obtain k where k: "k < length c" "c' = c[k := (c ! k)\<lparr>lastLogin := Some (now e)\<rparr>]"
    by auto
  with c' show ?thesis by blast
qed

lemma login_failure_store:
  "status (fst (login B v c e u p)) \<noteq> 200 \<Longrightarrow> fst (snd (login B v c e u p)) = c"
  by (auto simp: login_cases split: option.splits if_splits)

subsection \<open>Validation at registration\<close>

text \<open>
  C1, at the input where the code departs from it. A registration with the username
  \<^verbatim>\<open>ab\<close>, of 2 characters, and a valid password passes the check of the two fields
  and the lookup and reaches \<^verbatim>\<open>save()\<close>, where the validator \<^verbatim>\<open>minlength: 3\<close> of
  the schema fails. Nothing is stored, but the \<^verbatim>\<open>catch\<close> answers the validation error
  with 500 and \<^verbatim>\<open>Internal server error during registration\<close>, not with the 400 it
  answers to a missing field. The same holds for a username of 31 characters and for a
  password of 5.
\<close>

theorem register_short_username_500:
  "register test_bcrypt [] (test_env 1000 7) (Some ''ab'') (Some (Str ''secret1'')) =
     (failure 500 ''Internal server error during registration'', [], [FindOne ''ab'']) \<and>
   fst (register test_bcrypt [] (test_env 1000 7) (Some (replicate 31 CHR ''a''))
          (Some (Str ''secret1''))) =
     failure 500 ''Internal server error during registration'' \<and>
   fst (register test_bcrypt [] (test_env 1000 7) (Some ''alice'') (Some (Str ''secre''))) =
     failure 500 ''Internal server error during registration'' \<and>
   fst (register test_bcrypt [] (test_env 1000 7) None (Some (Str ''secret1''))) =
     failure 400 ''Username and password are required''"
  by (simp add: register_cases truthy_def)

text \<open>
  What does hold of the bounds: a registration with string fields succeeds exactly when
  the username has 3 to 30 characters, the password at least 6, no stored document has the
  username and the new \<^verbatim>\<open>_id\<close> is unused; when a registration does not succeed the
  collection is unchanged; and within the bounds no 400 is answered.
\<close>

lemma register_accepts:
  "(status (fst (register B c e (Some un) (Some (Str pw)))) = 201) =
     (3 \<le> length un \<and> length un \<le> 30 \<and> 6 \<le> length pw \<and>
      un \<notin> username ` set c \<and> fresh_oid e \<notin> oid ` set c)"
  "status (fst (register B c e u p)) = 201 \<or> fst (snd (register B c e u p)) = c"
  "3 \<le> length un \<Longrightarrow> 6 \<le> length pw \<Longrightarrow>
     status (fst (register B c e (Some un) (Some (Str pw)))) \<noteq> 400"
  by (auto simp: register_cases truthy_def)

text \<open>The boundary lengths, on the empty collection.\<close>

lemma register_boundaries:
  "status (fst (register B [] e (Some (replicate 2 CHR ''a'')) (Some (Str ''secret'')))) = 500"
  "status (fst (register B [] e (Some (replicate 3 CHR ''a'')) (Some (Str ''secret'')))) = 201"
  "status (fst (register B [] e (Some (replicate 30 CHR ''a'')) (Some (Str ''secret'')))) = 201"
  "status (fst (register B [] e (Some (replicate 31 CHR ''a'')) (Some (Str ''secret'')))) = 500"
  "status (fst (register B [] e (Some ''alice'') (Some (Str ''secre'')))) = 500"
  "status (fst (register B [] e (Some ''alice'') (Some (Str ''secret'')))) = 201"
  by (simp_all add: register_cases truthy_def)

subsection \<open>Calls made before a registration is refused\<close>

text \<open>
  C9, as amended. When the username or the password is missing or empty,
  \<^verbatim>\<open>register\<close> answers 400 without any call on the store or on \<^verbatim>\<open>bcrypt\<close>. When
  both are present and a length is out of bounds, no salt is generated, nothing is hashed
  and nothing is written: the collection is unchanged and the one call made is the lookup
  \<^verbatim>\<open>User.findOne\<close>, which precedes the validation of \<^verbatim>\<open>save()\<close>.
\<close>

theorem register_invalid_calls:
  "(\<not> truthy u \<or> \<not> truthy_value p \<longrightarrow>
      register B c e u p = (failure 400 ''Username and password are required'', c, [])) \<and>
   (un \<noteq> [] \<and> pw \<noteq> [] \<and> \<not> (3 \<le> length un \<and> length un \<le> 30 \<and> 6 \<le> length pw) \<longrightarrow>
      fst (snd (register B c e (Some un) (Some (Str pw)))) = c \<and>
      snd (snd (register B c e (Some un) (Some (Str pw)))) = [FindOne un]) \<and>
   (un \<noteq> [] \<and> truthy_value (Some q) \<and>
    \<not> (3 \<le> length un \<and> length un \<le> 30 \<and> 6 \<le> length (as_string q)) \<longrightarrow>
      fst (snd (register B c e (Some un) (Some q))) = c \<and>
      snd (snd (register B c e (Some un) (Some q))) = [FindOne un])"
  by (simp add: register_cases truthy_def)

theorem register_invalid_calls_witness:
  "register test_bcrypt [] (test_env 1000 7) (Some []) (Some (Str ''secret1'')) =
     (failure 400 ''Username and password are required'', [], []) \<and>
   snd (snd (register test_bcrypt [] (test_env 1000 7) (Some ''alice'') (Some (Str ''12345'')))) =
     [FindOne ''alice''] \<and>
   snd (snd (register test_bcrypt [] (test_env 1000 7) (Some ''alice'') (Some number_12345))) =
     [FindOne ''alice'']"
  using register_invalid_calls [of "Some []" "Some (Str ''secret1'')" test_bcrypt "[]"
      "test_env 1000 7" "''alice''" "''12345''" number_12345]
  by (simp add: truthy_def number_12345_def)

text \<open>
  C9 as stated fails: for a username of 2 characters a storage call, the lookup, is made
  before the validation failure is answered.
\<close>

theorem register_invalid_lookup_first:
  "snd (snd (register test_bcrypt [] (test_env 1000 7) (Some ''ab'') (Some (Str ''secret1'')))) =
     [FindOne ''ab'']"
  by (simp add: register_cases truthy_def)

subsection \<open>Failed logins\<close>

text \<open>
  C10. A login that is not answered 200 leaves the collection as it was: no document is
  created or modified, so no \<^verbatim>\<open>lastLogin\<close> changes. When the answer is 400 (a field is
  missing) or 401 (unknown username or wrong password), the only calls made are the lookup
  and the comparison: no write is attempted.
\<close>

theorem login_failure_unchanged:
  "status (fst (login B v c e u p)) \<noteq> 200 \<Longrightarrow>
     fst (snd (login B v c e u p)) = c \<and>
     (status (fst (login B v c e u p)) \<in> {400, 401} \<longrightarrow>
        set (snd (snd (login B v c e u p))) \<subseteq> {FindOne (the u), Compare (the p)})"
  by (auto simp: login_cases split: option.splits if_splits)

lemma login_alice_wrong:
  "login test_bcrypt v alice_store e (Some ''alice'') (Some (Str ''wrong'')) =
     (failure 401 ''Invalid credentials'', alice_store,
      [FindOne ''alice'', Compare (Str ''wrong'')])"
  by (simp add: login_cases truthy_def alice_store_def alice_def findOne_def
      test_bcrypt_def test_env_def)

theorem login_failure_unchanged_witness:
  "fst (snd (login test_bcrypt Plain alice_store (test_env 2000 8) (Some ''alice'')
      (Some (Str ''wrong'')))) = alice_store \<and>
   set (snd (snd (login test_bcrypt Plain alice_store (test_env 2000 8) (Some ''alice'')
      (Some (Str ''wrong'')))))
     \<subseteq> {FindOne ''alice'', Compare (Str ''wrong'')}"
proof -
  have "status (fst (login test_bcrypt Plain alice_store (test_env 2000 8) (Some ''alice'')
      (Some (Str ''wrong'')))) \<noteq> 200"
    by (simp add: login_alice_wrong)
  from login_failure_unchanged [OF this] show ?thesis
    by (simp add: login_alice_wrong)
qed

subsection \<open>What a failed login tells about the username\<close>

text \<open>
  C2, at the input where the code departs from it. The body
  \<^verbatim>\<open>{"username": "alice", "password": 12345}\<close> has both fields present: the number is
  truthy and passes the check of the two fields. With \<^verbatim>\<open>alice\<close> stored, the lookup
  finds the user, \<^verbatim>\<open>bcrypt.compare\<close> rejects the number and the \<^verbatim>\<open>catch\<close> answers
  500 with \<^verbatim>\<open>Internal server error during login\<close>. The same password with the
  username \<^verbatim>\<open>bob\<close>, which is not stored, is answered 401 with
  \<^verbatim>\<open>Invalid credentials\<close> before any comparison. The two responses differ, so they
  tell whether the username exists.
\<close>

theorem login_number_password_tells:
  "login test_bcrypt Plain alice_store (test_env 2000 8) (Some ''alice'') (Some number_12345) =
     (failure 500 ''Internal server error during login'', alice_store,
      [FindOne ''alice'', Compare number_12345]) \<and>
   login test_bcrypt Plain alice_store (test_env 2000 8) (Some ''bob'') (Some number_12345) =
     (failure 401 ''Invalid credentials'', alice_store, [FindOne ''bob''])"
  by (simp add: login_cases truthy_def alice_store_def alice_def findOne_def number_12345_def)

text \<open>
  When both passwords are strings, a login with a stored username and a password that
  does not match and a login with a username that is not stored do get the same response,
  status 401 and the message \<^verbatim>\<open>Invalid credentials\<close>.
\<close>

lemma login_invalid_credentials_same:
  assumes "ua \<noteq> []" "pa \<noteq> []" "ub \<noteq> []" "pb \<noteq> []"
    and "findOne c ua = Some d" "\<not> bcrypt_compare B pa (password (doc d))"
    and "findOne c ub = None"
  shows "fst (login B v c ea (Some ua) (Some (Str pa))) =
           fst (login B v c eb (Some ub) (Some (Str pb))) \<and>
         fst (login B v c ea (Some ua) (Some (Str pa))) = failure 401 ''Invalid credentials''"
  using assms by (simp add: login_cases truthy_def)

text \<open>
  A login whose password is not a string is answered 500 exactly when the username is
  stored, and 401 otherwise.
\<close>

lemma login_other_password:
  "ua \<noteq> [] \<Longrightarrow>
     fst (login B v c e (Some ua) (Some (Other True s))) =
       (if ua \<in> username ` set c then failure 500 ''Internal server error during login''
        else failure 401 ''Invalid credentials'')"
  using findOne_None_iff [of c ua]
  by (cases "findOne c ua") (simp_all add: login_cases truthy_def)

subsection \<open>The stored hash\<close>

lemma findOne_append_new:
  "username x \<notin> username ` set c \<Longrightarrow>
     findOne (c @ [x]) (username x) = Some \<lparr>doc = x, isNew = False, modifiedPaths = {}\<rparr>"
  by (induction c) (auto simp: findOne_def)

text \<open>
  C5. After a registration answered 201, the document found under the username holds as
  its password \<^verbatim>\<open>bcrypt.hash\<close> of the plaintext with the generated salt. So whenever
  \<^verbatim>\<open>bcrypt.compare\<close> accepts a password against its own hash, it accepts the registered
  password against the stored value, and whenever the hash differs from the plaintext, so
  does the stored value. The two hypotheses are the contract of \<^verbatim>\<open>bcrypt\<close>, which is
  not part of the repository.
\<close>

theorem register_then_verify:
  assumes "status (fst (register B c e (Some u) (Some (Str p)))) = 201"
    and "bcrypt_compare B p (bcrypt_hash B p (salt e))"
    and "bcrypt_hash B p (salt e) \<noteq> p"
  shows "\<exists>d. findOne (fst (snd (register B c e (Some u) (Some (Str p))))) u = Some d \<and>
             password (doc d) = bcrypt_hash B p (salt e) \<and>
             bcrypt_compare B p (password (doc d)) \<and> password (doc d) \<noteq> p"
proof -
  let ?x = "stored_user B e u p"
  from assms(1) have ok: "u \<notin> username ` set c" and c': "fst (snd (register B c e (Some u) (Some (Str p)))) = c @ [?x]"
    by (auto simp: register_cases truthy_def split: if_splits)
  have "username ?x = u" "password ?x = bcrypt_hash B p (salt e)"
    by (simp_all add: stored_user_def)
  with ok findOne_append_new [of ?x c]
  have "findOne (c @ [?x]) u = Some \<lparr>doc = ?x, isNew = False, modifiedPaths = {}\<rparr>"
    by simp
  with c' assms(2,3) \<open>password ?x = _\<close> show ?thesis
    by simp
qed

theorem register_then_verify_witness:
  "\<exists>d. findOne (fst (snd (register test_bcrypt [] (test_env 1000 7) (Some ''alice'') (Some (Str ''secret1'')))))
          ''alice'' = Some d \<and>
       password (doc d) = ''$2b$10$secret1'' \<and>
       bcrypt_compare test_bcrypt ''secret1'' (password (doc d)) \<and>
       password (doc d) \<noteq> ''secret1''"
proof -
  have 1: "status (fst (register test_bcrypt [] (test_env 1000 7) (Some ''alice'') (Some (Str ''secret1'')))) = 201"
    by (simp add: register_cases truthy_def)
  have 2: "bcrypt_compare test_bcrypt ''secret1'' (bcrypt_hash test_bcrypt ''secret1'' (salt (test_env 1000 7)))"
    by (simp add: test_bcrypt_def test_env_def)
  have 3: "bcrypt_hash test_bcrypt ''secret1'' (salt (test_env 1000 7)) \<noteq> ''secret1''"
    by (simp add: test_bcrypt_def test_env_def)
  show ?thesis
    using register_then_verify [OF 1 2 3] by (simp add: test_bcrypt_def test_env_def)
qed

subsection \<open>What a successful login writes\<close>

text \<open>
  C7. A login answered 200 rewrites one stored document, and of it only
  \<^verbatim>\<open>lastLogin\<close>: the collection afterwards is the one before with \<^verbatim>\<open>lastLogin\<close> of
  one document set to the clock reading. Every document keeps its \<^verbatim>\<open>createdAt\<close>, its
  password hash, its username and its \<^verbatim>\<open>_id\<close>.
\<close>

theorem login_changes_only_lastLogin:
  assumes "status (fst (login B v c e u p)) = 200"
  shows "(\<exists>i<length c. fst (snd (login B v c e u p)) = c[i := (c ! i)\<lparr>lastLogin := Some (now e)\<rparr>]) \<and>
         map createdAt (fst (snd (login B v c e u p))) = map createdAt c \<and>
         map password (fst (snd (login B v c e u p))) = map password c \<and>
         map username (fst (snd (login B v c e u p))) = map username c \<and>
         map oid (fst (snd (login B v c e u p))) = map oid c"
proof -
  from login_success_store [OF assms] obtain k where k: "k < length c"
    "fst (snd (login B v c e u p)) = c[k := (c ! k)\<lparr>lastLogin := Some (now e)\<rparr>]"
    by blast
  then have "map createdAt (fst (snd (login B v c e u p))) = map createdAt c"
    "map password (fst (snd (login B v c e u p))) = map password c"
    "map username (fst (snd (login B v c e u p))) = map username c"
    "map oid (fst (snd (login B v c e u p))) = map oid c"
    by (simp_all add: map_update list_update_same_conv)
  moreover have "\<exists>i<length c.
      fst (snd (login B v c e u p)) = c[i := (c ! i)\<lparr>lastLogin := Some (now e)\<rparr>]"
    using k by blast
  ultimately show ?thesis by simp
qed

theorem login_changes_only_lastLogin_witness:
  "map createdAt (fst (snd (login test_bcrypt Plain alice_store (test_env 2000 8) (Some ''alice'') (Some (Str ''secret1''))))) = [1000] \<and>
   map password (fst (snd (login test_bcrypt Plain alice_store (test_env 2000 8) (Some ''alice'') (Some (Str ''secret1''))))) = [''$2b$10$secret1'']"
proof -
  have "status (fst (login test_bcrypt Plain alice_store (test_env 2000 8) (Some ''alice'') (Some (Str ''secret1'')))) = 200"
    by (simp add: login_cases truthy_def alice_store_def alice_def findOne_def
        test_bcrypt_def test_env_def validate_def)
  from login_changes_only_lastLogin [OF this] show ?thesis
    by (simp add: alice_store_def alice_def test_bcrypt_def test_env_def)
qed

subsection \<open>What the responses hold\<close>

text \<open>
  C8. No response of \<^verbatim>\<open>register\<close> or \<^verbatim>\<open>login\<close> has a key \<^verbatim>\<open>password\<close> or
  \<^verbatim>\<open>passwordHash\<close> at any depth. The body of a 201 is \<^verbatim>\<open>success\<close>,
  \<^verbatim>\<open>message\<close> and \<^verbatim>\<open>user\<close> with just \<^verbatim>\<open>username\<close> and
  \<^verbatim>\<open>createdAt\<close>; the body of a 200 is \<^verbatim>\<open>success\<close>, \<^verbatim>\<open>message\<close>, the
  constant \<^verbatim>\<open>token\<close> in the copy that has one, and \<^verbatim>\<open>user\<close> with just
  \<^verbatim>\<open>username\<close> and \<^verbatim>\<open>lastLogin\<close>. The strings of any response are fixed
  messages, the constant token and the username the caller sent.
\<close>

theorem responses_without_password:
  "''password'' \<notin> set (json_keys (body (fst (register B c e u p)))) \<and>
   ''passwordHash'' \<notin> set (json_keys (body (fst (register B c e u p)))) \<and>
   ''password'' \<notin> set (json_keys (body (fst (login B v c e u p)))) \<and>
   ''passwordHash'' \<notin> set (json_keys (body (fst (login B v c e u p)))) \<and>
   (status (fst (register B c e u p)) = 201 \<longrightarrow>
      body (fst (register B c e u p)) =
        JObj [(''success'', JBool True), (''message'', JStr ''User registered successfully''),
              (''user'', JObj [(''username'', JStr (the u)), (''createdAt'', JDate (now e))])]) \<and>
   (status (fst (login B v c e u p)) = 200 \<longrightarrow>
      body (fst (login B v c e u p)) =
        JObj ([(''success'', JBool True), (''message'', JStr ''Login successful'')] @
              (case v of Plain \<Rightarrow> [] | Mock_token \<Rightarrow> [(''token'', JStr ''mock-token-12345'')]) @
              [(''user'', JObj [(''username'', JStr (the u)), (''lastLogin'', JDate (now e))])])) \<and>
   set (json_strings (body (fst (register B c e u p)))) \<subseteq>
     {the u, ''User registered successfully'', ''Username and password are required'',
      ''Username already exists'', ''Internal server error during registration''} \<and>
   set (json_strings (body (fst (login B v c e u p)))) \<subseteq>
     {the u, ''Login successful'', ''mock-token-12345'', ''Username and password are required'',
      ''Invalid credentials'', ''Internal server error during login''}"
proof -
  have r: "\<And>x. body (failure n m) = JObj [(''success'', JBool False), (''message'', JStr m)]" for n m
    by (simp add: failure_def)
  have d: "findOne c (the u) = Some d \<Longrightarrow> username (doc d) = the u" for d
    using findOne_SomeD by blast
  show ?thesis
    apply (intro conjI)
    subgoal by (simp add: register_cases r registered_def stored_user_def)
    subgoal by (simp add: register_cases r registered_def stored_user_def)
    subgoal by (simp add: login_cases r logged_in_def split: option.splits variant.splits)
    subgoal by (simp add: login_cases r logged_in_def split: option.splits variant.splits)
    subgoal by (simp add: register_cases r registered_def stored_user_def)
    subgoal by (auto simp: login_cases r logged_in_def d split: option.splits variant.splits)
    subgoal by (simp add: register_cases r registered_def stored_user_def)
    subgoal by (auto simp: login_cases r logged_in_def d split: option.splits variant.splits)
    done
qed

theorem responses_without_password_witness:
  "body (fst (register test_bcrypt [] (test_env 1000 7) (Some ''alice'') (Some (Str ''secret1'')))) =
     JObj [(''success'', JBool True), (''message'', JStr ''User registered successfully''),
           (''user'', JObj [(''username'', JStr ''alice''), (''createdAt'', JDate 1000)])] \<and>
   body (fst (login test_bcrypt Mock_token alice_store (test_env 2000 8) (Some ''alice'')
      (Some (Str ''secret1'')))) =
     JObj [(''success'', JBool True), (''message'', JStr ''Login successful''),
           (''token'', JStr ''mock-token-12345''),
           (''user'', JObj [(''username'', JStr ''alice''), (''lastLogin'', JDate 2000)])]"
proof -
  have 1: "status (fst (register test_bcrypt [] (test_env 1000 7) (Some ''alice'')
      (Some (Str ''secret1'')))) = 201"
    by (simp add: register_cases truthy_def)
  have 2: "status (fst (login test_bcrypt Mock_token alice_store (test_env 2000 8) (Some ''alice'')
      (Some (Str ''secret1'')))) = 200"
    by (simp add: login_cases truthy_def alice_store_def alice_def findOne_def
        test_bcrypt_def test_env_def validate_def)
  show ?thesis
    using 1 responses_without_password [of test_bcrypt "[]" "test_env 1000 7" "Some ''alice''"
        "Some (Str ''secret1'')" Plain]
      2 responses_without_password [of test_bcrypt alice_store "test_env 2000 8" "Some ''alice''"
        "Some (Str ''secret1'')" Mock_token]
    by (simp add: test_env_def)
qed

subsection \<open>The history of \<open>lastLogin\<close>\<close>

lemma find_update_first:
  assumes "k < length xs" and "P (xs ! k)" and "\<forall>j<k. \<not> P (xs ! j)" and "P y"
  shows "find P (xs[k := y]) = Some y"
proof -
  have "\<exists>i<length (xs[k := y]). P (xs[k := y] ! i) \<and> y = xs[k := y] ! i \<and>
          (\<forall>j<i. \<not> P (xs[k := y] ! j))"
  proof (intro exI [of _ k] conjI allI impI)
    show "k < length (xs[k := y])" using assms(1) by simp
    show "P (xs[k := y] ! k)" using assms(1,4) by simp
    show "y = xs[k := y] ! k" using assms(1) by simp
    fix j assume "j < k"
    then show "\<not> P (xs[k := y] ! j)" using assms(3) by simp
  qed
  then show ?thesis
    by (simp only: find_Some_iff)
qed

lemma find_update_other:
  assumes "k < length xs" and "\<not> P (xs ! k)" and "\<not> P y"
  shows "find P (xs[k := y]) = find P xs"
  using assms
proof (induction xs arbitrary: k)
  case Nil
  then show ?case by simp
next
  case (Cons a xs)
  show ?case
  proof (cases k)
    case 0
    with Cons.prems show ?thesis by simp
  next
    case (Suc m)
    with Cons.prems have "m < length xs" "\<not> P (xs ! m)" by simp_all
    from Cons.IH [OF this Cons.prems(3)] Suc show ?thesis by simp
  qed
qed

lemma distinct_oid_index:
  assumes "distinct (map oid c)" "k < length c" "x \<in> set c" "oid (c ! k) = oid x"
  shows "c ! k = x"
proof -
  from assms(3) obtain j where j: "j < length c" "c ! j = x"
    by (auto simp: in_set_conv_nth)
  with assms have "map oid c ! j = map oid c ! k" by simp
  with assms(1,2) j(1) have "j = k"
    by (simp add: nth_eq_iff_index_eq del: nth_map)
  with j show ?thesis by simp
qed

lemma distinct_oid_unique_index:
  assumes "distinct (map oid c)" "k < length c" "j < length c" "c ! j = c ! k"
  shows "j = k"
proof -
  from assms have "map oid c ! j = map oid c ! k" by simp
  with assms show ?thesis
    by (simp add: nth_eq_iff_index_eq del: nth_map)
qed

text \<open>
  What a login answered 200 leaves in the collection, when no two documents share an
  \<^verbatim>\<open>_id\<close>.
\<close>

lemma login_success_lastLogin_of:
  assumes "distinct (map oid c)" and "status (fst (login B v c e u p)) = 200"
  shows "u = Some (the u) \<and>
         lastLogin_of (fst (snd (login B v c e u p))) w =
           (if w = the u then Some (now e) else lastLogin_of c w)"
proof -
  let ?f = "\<lambda>x. x\<lparr>lastLogin := Some (now e)\<rparr>"
  let ?P = "\<lambda>x. username x = the u"
  from assms(2) have tr: "truthy u"
    by (auto simp: login_cases split: if_splits)
  then have u: "u = Some (the u)"
    by (cases u) (simp_all add: truthy_def)
  from assms(2) obtain d c' where d: "findOne c (the u) = Some d"
    and up: "update_first c (oid (doc d)) ?f = Some c'"
    and c': "fst (snd (login B v c e u p)) = c'"
    by (auto simp: login_cases split: option.splits if_splits)
  from d have din: "doc d \<in> set c" and du: "username (doc d) = the u"
    using findOne_SomeD by blast+
  then have "oid (doc d) \<in> oid ` set c" by blast
  from update_first_Some [OF this, of ?f] up
  obtain k where k: "k < length c" "oid (c ! k) = oid (doc d)" "c' = c[k := ?f (c ! k)]"
    by auto
  have ck: "c ! k = doc d"
    using distinct_oid_index [OF assms(1) k(1) din k(2)] .
  from d have fnd: "find ?P c = Some (doc d)"
    by (auto simp: findOne_def split: option.splits)
  then obtain i where i: "i < length c" "doc d = c ! i" "\<forall>j<i. \<not> ?P (c ! j)"
    unfolding find_Some_iff by blast
  have "i = k"
    using distinct_oid_unique_index [OF assms(1) k(1) i(1)] i(2) ck by simp
  with i have first: "\<forall>j<k. \<not> ?P (c ! j)" by simp
  have Pk: "?P (c ! k)" using ck du by simp
  have "lastLogin_of c' w = (if w = the u then Some (now e) else lastLogin_of c w)"
  proof (cases "w = the u")
    case True
    have "?P (?f (c ! k))" using Pk by simp
    from find_update_first [of k c ?P, OF k(1) Pk first this]
    have "find ?P (c[k := ?f (c ! k)]) = Some (?f (c ! k))" .
    with True k(3) show ?thesis
      by (simp add: lastLogin_of_def findOne_def)
  next
    case False
    then have n: "\<not> username (c ! k) = w" "\<not> username (?f (c ! k)) = w"
      using Pk by simp_all
    from find_update_other [of k c "\<lambda>x. username x = w", OF k(1) n]
    have "find (\<lambda>x. username x = w) (c[k := ?f (c ! k)]) = find (\<lambda>x. username x = w) c" .
    with False k(3) show ?thesis
      by (simp add: lastLogin_of_def findOne_def)
  qed
  with u c' show ?thesis by simp
qed

lemma find_append_single:
  "find P (xs @ [x]) =
     (case find P xs of None \<Rightarrow> (if P x then Some x else None) | Some y \<Rightarrow> Some y)"
  by (induction xs) auto

lemma register_lastLogin_of:
  "lastLogin_of (fst (snd (register B c e u p))) w = lastLogin_of c w"
proof (cases "status (fst (register B c e u p)) = 201")
  case False
  then have "fst (snd (register B c e u p)) = c"
    by (auto simp: register_cases split: if_splits)
  then show ?thesis by simp
next
  case True
  then have c': "fst (snd (register B c e u p)) = c @ [stored_user B e (the u) (as_string (the p))]"
    by (auto simp: register_cases split: if_splits)
  have n: "lastLogin (stored_user B e (the u) (as_string (the p))) = None"
    by (simp add: stored_user_def)
  show ?thesis
    unfolding c' lastLogin_of_def findOne_def find_append_single
    by (cases "find (\<lambda>x. username x = w) c") (simp_all add: n)
qed

lemma handle_distinct_oid:
  assumes "distinct (map oid c)"
  shows "distinct (map oid (fst (snd (handle B v c e rq))))"
proof (cases rq)
  case (Register u p)
  with assms show ?thesis
    by (auto simp: handle_def register_cases stored_user_def)
next
  case (Login u p)
  show ?thesis
  proof (cases "status (fst (login B v c e u p)) = 200")
    case True
    from login_success_store [OF this] obtain k where "k < length c"
      "fst (snd (login B v c e u p)) = c[k := (c ! k)\<lparr>lastLogin := Some (now e)\<rparr>]"
      by blast
    then have "map oid (fst (snd (login B v c e u p))) = map oid c"
      by (simp add: map_update list_update_same_conv)
    with assms Login show ?thesis
      by (simp add: handle_def)
  next
    case False
    from login_failure_store [OF this] assms Login show ?thesis
      by (simp add: handle_def)
  qed
qed

lemma handle_lastLogin_of:
  assumes "distinct (map oid c)"
  shows "lastLogin_of (fst (snd (handle B v c e rq))) w =
         (if successful_login w rq (fst (handle B v c e rq)) then Some (now e)
          else lastLogin_of c w)"
proof (cases rq)
  case (Register u p)
  then show ?thesis
    by (simp add: handle_def register_lastLogin_of successful_login_def)
next
  case (Login u p)
  show ?thesis
  proof (cases "status (fst (login B v c e u p)) = 200")
    case True
    from login_success_lastLogin_of [OF assms True, of w]
    have u: "u = Some (the u)" and
      l: "lastLogin_of (fst (snd (login B v c e u p))) w =
            (if w = the u then Some (now e) else lastLogin_of c w)"
      by blast+
    have "successful_login w rq (fst (login B v c e u p)) = (w = the u)"
      using Login True u by (cases u) (auto simp: successful_login_def)
    with l Login show ?thesis
      by (simp add: handle_def)
  next
    case False
    from login_failure_store [OF this] have "fst (snd (login B v c e u p)) = c" .
    moreover have "\<not> successful_login w rq (fst (login B v c e u p))"
      using False Login by (auto simp: successful_login_def split: option.splits)
    ultimately show ?thesis
      using Login by (simp add: handle_def)
  qed
qed

lemma serve_lastLogin_of:
  "distinct (map oid c) \<Longrightarrow>
     lastLogin_of (snd (serve B v c reqs)) w =
       latest_login w (fst (serve B v c reqs)) (lastLogin_of c w)"
proof (induction reqs arbitrary: c)
  case Nil
  then show ?case by simp
next
  case (Cons a reqs)
  obtain e rq where a: "a = (e, rq)" by (cases a)
  obtain r c' evs where h: "handle B v c e rq = (r, c', evs)" by (cases "handle B v c e rq")
  obtain log c'' where s: "serve B v c' reqs = (log, c'')" by (cases "serve B v c' reqs")
  have d: "distinct (map oid c')"
    using handle_distinct_oid [OF Cons.prems, of B v e rq] h by simp
  have l: "lastLogin_of c' w = (if successful_login w rq r then Some (now e) else lastLogin_of c w)"
    using handle_lastLogin_of [OF Cons.prems, of B v e rq w] h by simp
  have "lastLogin_of c'' w = latest_login w log (lastLogin_of c' w)"
    using Cons.IH [OF d] s by simp
  then show ?case
    unfolding a using h s l by simp
qed

text \<open>
  C6, as amended. When the server has answered a sequence of requests one after the
  other, starting with the empty collection, the \<^verbatim>\<open>lastLogin\<close> of a user is absent if
  no login of that username was answered 200, and otherwise it is the \<^verbatim>\<open>Date.now()\<close>
  reading of the most recent login of that username answered 200. So a successful login
  makes \<^verbatim>\<open>lastLogin\<close> at least its previous value exactly when its clock reading is at
  least that value; the code does not compare the two.
\<close>

theorem lastLogin_history:
  "findOne (snd (serve B v [] reqs)) u = Some d \<Longrightarrow>
     lastLogin (doc d) = latest_login u (fst (serve B v [] reqs)) None"
  using serve_lastLogin_of [of "[]" B v reqs u]
  by (simp add: lastLogin_of_def findOne_def)

subsection \<open>Concrete runs on the user \<open>alice\<close>\<close>

lemma register_alice:
  "register test_bcrypt [] (test_env 1000 7) (Some ''alice'') (Some (Str ''secret1'')) =
     (registered \<lparr>doc = alice None, isNew = False, modifiedPaths = {}\<rparr>, alice_store,
      [FindOne ''alice'', GenSalt, Hash ''secret1'', InsertOne (alice None)])"
  by (simp add: register_cases truthy_def stored_user_def test_bcrypt_def test_env_def alice_def
      alice_store_def)

lemma login_alice:
  "login test_bcrypt v [alice l] (test_env t i) (Some ''alice'') (Some (Str ''secret1'')) =
     (logged_in v \<lparr>doc = alice (Some t), isNew = False, modifiedPaths = {}\<rparr>, [alice (Some t)],
      [FindOne ''alice'', Compare (Str ''secret1''), UpdateOne 7])"
  by (simp add: login_cases truthy_def findOne_def alice_def test_bcrypt_def test_env_def
      validate_def)

lemma findOne_alice:
  "findOne [alice l] ''alice'' = Some \<lparr>doc = alice l, isNew = False, modifiedPaths = {}\<rparr>"
  by (simp add: findOne_def alice_def)

theorem lastLogin_history_witness:
  "\<exists>d. findOne (snd (serve test_bcrypt Plain []
            [(test_env 1000 7, Register (Some ''alice'') (Some (Str ''secret1''))),
             (test_env 5000 0, Login (Some ''alice'') (Some (Str ''secret1'')))])) ''alice'' = Some d \<and>
        lastLogin (doc d) = Some 5000"
proof -
  let ?reqs = "[(test_env 1000 7, Register (Some ''alice'') (Some (Str ''secret1''))),
                (test_env 5000 0, Login (Some ''alice'') (Some (Str ''secret1'')))]"
  have s: "serve test_bcrypt Plain [] ?reqs =
      ([(test_env 1000 7, Register (Some ''alice'') (Some (Str ''secret1'')),
         registered \<lparr>doc = alice None, isNew = False, modifiedPaths = {}\<rparr>),
        (test_env 5000 0, Login (Some ''alice'') (Some (Str ''secret1'')),
         logged_in Plain \<lparr>doc = alice (Some 5000), isNew = False, modifiedPaths = {}\<rparr>)],
       [alice (Some 5000)])"
    by (simp add: handle_def register_alice login_alice alice_store_def)
  have f: "findOne (snd (serve test_bcrypt Plain [] ?reqs)) ''alice'' =
      Some \<lparr>doc = alice (Some 5000), isNew = False, modifiedPaths = {}\<rparr>"
    unfolding s by (simp add: findOne_alice)
  from lastLogin_history [OF f] f show ?thesis
    unfolding s by (simp add: successful_login_def test_env_def)
qed

text \<open>
  C6 as stated fails: \<^verbatim>\<open>Date.now()\<close> is the wall clock, which can be set back between
  two logins. The second of two logins answered 200 then sets \<^verbatim>\<open>lastLogin\<close> to a value
  below the previous one. (With a clock that only advances the same happens when two
  logins of a user are in flight together: \<open>two_logins_reordered\<close> below.)
\<close>

theorem lastLogin_decreases:
  "lastLogin_of (snd (serve test_bcrypt Plain []
      [(test_env 1000 7, Register (Some ''alice'') (Some (Str ''secret1''))),
       (test_env 5000 0, Login (Some ''alice'') (Some (Str ''secret1'')))])) ''alice'' = Some 5000 \<and>
   map (\<lambda>x. status (snd (snd x))) (fst (serve test_bcrypt Plain []
      [(test_env 1000 7, Register (Some ''alice'') (Some (Str ''secret1''))),
       (test_env 5000 0, Login (Some ''alice'') (Some (Str ''secret1''))),
       (test_env 4000 0, Login (Some ''alice'') (Some (Str ''secret1'')))])) = [201, 200, 200] \<and>
   lastLogin_of (snd (serve test_bcrypt Plain []
      [(test_env 1000 7, Register (Some ''alice'') (Some (Str ''secret1''))),
       (test_env 5000 0, Login (Some ''alice'') (Some (Str ''secret1''))),
       (test_env 4000 0, Login (Some ''alice'') (Some (Str ''secret1'')))])) ''alice'' = Some 4000"
  by (simp add: handle_def register_alice login_alice alice_store_def lastLogin_of_def
      findOne_alice)
     (simp add: alice_def)

subsection \<open>Requests in flight together\<close>

lemma update_first_usernames:
  "update_first c i f = Some c' \<Longrightarrow> (\<And>x. username (f x) = username x) \<Longrightarrow>
     map username c' = map username c"
proof (induction c arbitrary: c')
  case Nil
  then show ?case by simp
next
  case (Cons a c)
  show ?case
  proof (cases "oid a = i")
    case True
    with Cons.prems show ?thesis by auto
  next
    case False
    with Cons.prems(1) obtain c'' where c'': "update_first c i f = Some c''" "c' = a # c''"
      by auto
    from Cons.IH [OF c''(1) Cons.prems(2)] c''(2) show ?thesis by simp
  qed
qed

lemma count_list_distinct: "distinct xs \<Longrightarrow> count_list xs u \<le> 1"
  by (induction xs) (auto simp: count_notin)

lemma stored_as_distinct: "distinct (map username c) \<Longrightarrow> stored_as u c \<le> 1"
  using count_list_distinct [of "map username c" u] by (simp add: stored_as_def)

lemma stored_as_usernames: "map username c' = map username c \<Longrightarrow> stored_as u c' = stored_as u c"
  by (simp add: stored_as_def)

lemma stored_as_pos: "u \<in> username ` set c \<Longrightarrow> 0 < stored_as u c"
  using count_list_0_iff [of "map username c" u] by (auto simp: stored_as_def)

lemma stored_as_append:
  "stored_as u (c @ [x]) = stored_as u c + (if username x = u then 1 else 0)"
  by (simp add: stored_as_def)

text \<open>What the write of a registration does to the collection.\<close>

lemma register_save_cases:
  assumes "isNew d"
  shows "(status (fst (register_save B c e d)) = 500 \<and> fst (snd (register_save B c e d)) = c) \<or>
         (status (fst (register_save B c e d)) = 201 \<and>
          username (doc d) \<notin> username ` set c \<and>
          (\<exists>x. username x = username (doc d) \<and> fst (snd (register_save B c e d)) = c @ [x]))"
proof (cases "validate d")
  case False
  then show ?thesis
    by (simp add: register_save_def save_def)
next
  case True
  obtain d' evs where p: "pre_save B e d = (d', evs)" by (cases "pre_save B e d")
  then have d': "isNew d'" "username (doc d') = username (doc d)"
    using assms by (auto simp: pre_save_def split: if_splits)
  show ?thesis
  proof (cases "insertOne c (doc d')")
    case (Inl err)
    with True p d' show ?thesis
      by (simp add: register_save_def save_def)
  next
    case (Inr c')
    then have "c' = c @ [doc d']" "username (doc d') \<notin> username ` set c"
      by (auto simp: insertOne_def split: if_splits)
    with True p d' Inr show ?thesis
      by (simp add: register_save_def save_def)
  qed
qed

text \<open>What the write of a login does to the collection.\<close>

lemma login_save_cases:
  assumes "\<not> isNew d" "Username \<notin> modifiedPaths d"
  shows "status (fst (login_save B v c e d)) \<in> {200, 500} \<and>
         map username (fst (snd (login_save B v c e d))) = map username c"
proof (cases "validate d")
  case False
  then show ?thesis
    by (simp add: login_save_def save_def)
next
  case True
  obtain d' evs where p: "pre_save B e d = (d', evs)" by (cases "pre_save B e d")
  then have d': "\<not> isNew d'" "modifiedPaths d' = modifiedPaths d"
    using assms by (auto simp: pre_save_def split: if_splits)
  show ?thesis
  proof (cases "updateOne c d'")
    case (Inl err)
    with True p d' show ?thesis
      by (simp add: login_save_def save_def)
  next
    case (Inr c')
    then have "update_first c (oid (doc d')) (apply_set (modifiedPaths d') (doc d')) = Some c'"
      by (auto simp: updateOne_def split: if_splits option.splits)
    from update_first_usernames [OF this] d'(2) assms(2)
    have "map username c' = map username c"
      by (simp add: apply_set_def)
    with True p d' Inr show ?thesis
      by (simp add: login_save_def save_def)
  qed
qed

lemma register_check_cases:
  "(\<exists>r. fst (register_check c e u p) = Inl r \<and> status r \<in> {400, 409}) \<or>
   (\<exists>d. fst (register_check c e u p) = Inr d \<and> isNew d \<and> u = Some (username (doc d)))"
  by (cases u) (auto simp: register_check_def truthy_def new_User_def split: option.splits)

lemma login_check_cases:
  "(\<exists>r. fst (login_check B c e u p) = Inl r \<and> status r \<in> {400, 401, 500}) \<or>
   (\<exists>d. fst (login_check B c e u p) = Inr d \<and> \<not> isNew d \<and> Username \<notin> modifiedPaths d)"
proof (cases "findOne c (the u)")
  case None
  then show ?thesis
    by (simp add: login_check_def)
next
  case (Some d)
  then have "\<not> isNew d" "modifiedPaths d = {}"
    using findOne_SomeD by blast+
  with Some show ?thesis
    by (cases "compare B (the p) (password (doc d))")
      (simp_all add: login_check_def set_lastLogin_def)
qed

lemma succeeded_simps:
  "succeeded u (rq, e, Start) = False"
  "succeeded u (rq, e, Saving d) = False"
  "succeeded u (Login un pw, e, ph) = False"
  "succeeded u (Register un pw, e, Done r) = (un = Some u \<and> status r = 201)"
  by (simp_all add: succeeded_def split: request.splits option.splits phase.splits)

lemma wf_proc_simps:
  "wf_proc (rq, e, Start) = True"
  "wf_proc (rq, e, Done r) = True"
  "wf_proc (Register un pw, e, Saving d) = (isNew d \<and> un = Some (username (doc d)))"
  "wf_proc (Login un pw, e, Saving d) = (\<not> isNew d \<and> Username \<notin> modifiedPaths d)"
  by (simp_all add: wf_proc_def split: request.splits option.splits phase.splits)

text \<open>One step of one request: what it keeps and what it counts.\<close>

lemma proc_step_invariant:
  assumes "wf_proc pr" and "distinct (map username c)"
  shows "wf_proc (fst (proc_step B v c pr)) \<and>
         distinct (map username (snd (proc_step B v c pr))) \<and>
         stored_as u (snd (proc_step B v c pr)) + of_bool (succeeded u pr) =
           stored_as u c + of_bool (succeeded u (fst (proc_step B v c pr))) \<and>
         username ` set c \<subseteq> username ` set (snd (proc_step B v c pr))"
proof -
  obtain rq e ph where pr: "pr = (rq, e, ph)" by (cases pr)
  show ?thesis
  proof (cases ph)
    case Start
    have keep: "wf_proc pr' \<Longrightarrow> \<not> succeeded u pr' \<Longrightarrow> proc_step B v c pr = (pr', c) \<Longrightarrow> ?thesis"
      for pr'
      using assms(2) pr Start by (simp add: succeeded_simps)
    show ?thesis
    proof (cases rq)
      case (Register un pw)
      from register_check_cases [of c e un pw]
      consider r where "fst (register_check c e un pw) = Inl r" "status r \<in> {400, 409}"
        | d where "fst (register_check c e un pw) = Inr d" "isNew d" "un = Some (username (doc d))"
        by blast
      then show ?thesis
      proof cases
        case 1
        then have "proc_step B v c pr = ((rq, e, Done r), c)" "\<not> succeeded u (rq, e, Done r)"
          using pr Start Register by (auto simp: proc_step_def succeeded_simps)
        then show ?thesis
          using keep [of "(rq, e, Done r)"] by (simp add: wf_proc_simps)
      next
        case 2
        then have "proc_step B v c pr = ((rq, e, Saving d), c)" "wf_proc (rq, e, Saving d)"
          using pr Start Register by (simp_all add: proc_step_def wf_proc_simps)
        then show ?thesis
          using keep [of "(rq, e, Saving d)"] by (simp add: succeeded_simps)
      qed
    next
      case (Login un pw)
      from login_check_cases [of B c e un pw]
      consider r where "fst (login_check B c e un pw) = Inl r"
        | d where "fst (login_check B c e un pw) = Inr d" "\<not> isNew d" "Username \<notin> modifiedPaths d"
        by blast
      then show ?thesis
      proof cases
        case 1
        then have "proc_step B v c pr = ((rq, e, Done r), c)" "\<not> succeeded u (rq, e, Done r)"
          using pr Start Login by (simp_all add: proc_step_def succeeded_simps)
        then show ?thesis
          using keep [of "(rq, e, Done r)"] by (simp add: wf_proc_simps)
      next
        case 2
        then have "proc_step B v c pr = ((rq, e, Saving d), c)" "wf_proc (rq, e, Saving d)"
          using pr Start Login by (simp_all add: proc_step_def wf_proc_simps)
        then show ?thesis
          using keep [of "(rq, e, Saving d)"] by (simp add: succeeded_simps)
      qed
    qed
  next
    case (Saving d)
    show ?thesis
    proof (cases rq)
      case (Register un pw)
      with assms(1) pr Saving have d: "isNew d" "un = Some (username (doc d))"
        by (simp_all add: wf_proc_simps)
      obtain r c' evs where s: "register_save B c e d = (r, c', evs)"
        by (cases "register_save B c e d")
      have st: "proc_step B v c pr = ((rq, e, Done r), c')"
        using pr Saving Register s by (simp add: proc_step_def)
      from register_save_cases [OF d(1), of B c e] s
      consider "status r = 500" "c' = c"
        | x where "status r = 201" "username (doc d) \<notin> username ` set c"
            "username x = username (doc d)" "c' = c @ [x]"
        by auto
      then show ?thesis
      proof cases
        case 1
        with assms(2) pr Saving Register show ?thesis
          unfolding st by (simp add: wf_proc_simps succeeded_simps)
      next
        case 2
        with assms(2) pr Saving Register d(2) show ?thesis
          unfolding st by (auto simp: wf_proc_simps succeeded_simps stored_as_append)
      qed
    next
      case (Login un pw)
      with assms(1) pr Saving have d: "\<not> isNew d" "Username \<notin> modifiedPaths d"
        by (simp_all add: wf_proc_simps)
      obtain r c' evs where s: "login_save B v c e d = (r, c', evs)"
        by (cases "login_save B v c e d")
      have st: "proc_step B v c pr = ((rq, e, Done r), c')"
        using pr Saving Login s by (simp add: proc_step_def)
      from login_save_cases [OF d, of B v c e] s have m: "map username c' = map username c"
        by simp
      have "set (map username c') = set (map username c)"
        by (simp only: m)
      then have sub: "username ` set c \<subseteq> username ` set c'"
        by (simp only: set_map)
      have dist: "distinct (map username c')"
        using assms(2) by (simp only: m)
      have cnt: "stored_as u c' = stored_as u c"
        using m by (rule stored_as_usernames)
      have "wf_proc (rq, e, Done r)" "\<not> succeeded u pr" "\<not> succeeded u (rq, e, Done r)"
        using pr Saving Login by (simp_all add: wf_proc_simps succeeded_simps)
      with sub dist cnt show ?thesis
        unfolding st by simp
    qed
  next
    case (Done r)
    with assms pr show ?thesis
      by (simp add: proc_step_def)
  qed
qed

lemma filter_update_count:
  "i < length ps \<Longrightarrow>
     length (filter P (ps[i := y])) + of_bool (P (ps ! i)) = length (filter P ps) + of_bool (P y)"
proof (induction ps arbitrary: i)
  case Nil
  then show ?case by simp
next
  case (Cons a ps)
  show ?case
  proof (cases i)
    case 0
    then show ?thesis by simp
  next
    case (Suc j)
    with Cons.prems have "j < length ps" by simp
    from Cons.IH [OF this] Suc show ?thesis by simp
  qed
qed

lemma run_invariant:
  assumes "distinct (map username c)" and "\<forall>pr \<in> set ps. wf_proc pr"
  shows "distinct (map username (fst (run B v sched (c, ps)))) \<and>
         (\<forall>pr \<in> set (snd (run B v sched (c, ps))). wf_proc pr) \<and>
         length (snd (run B v sched (c, ps))) = length ps \<and>
         stored_as u (fst (run B v sched (c, ps))) + length (filter (succeeded u) ps) =
           stored_as u c + length (filter (succeeded u) (snd (run B v sched (c, ps)))) \<and>
         username ` set c \<subseteq> username ` set (fst (run B v sched (c, ps)))"
  using assms
proof (induction sched arbitrary: c ps)
  case Nil
  then show ?case by simp
next
  case (Cons i sched)
  show ?case
  proof (cases "i < length ps")
    case False
    with Cons.IH [OF Cons.prems] show ?thesis by simp
  next
    case True
    obtain pr c' where st: "proc_step B v c (ps ! i) = (pr, c')"
      by (cases "proc_step B v c (ps ! i)")
    from True Cons.prems(2) have wf: "wf_proc (ps ! i)" by simp
    from proc_step_invariant [OF wf Cons.prems(1), of B v u] st
    have 1: "wf_proc pr" "distinct (map username c')"
      "stored_as u c' + of_bool (succeeded u (ps ! i)) = stored_as u c + of_bool (succeeded u pr)"
      "username ` set c \<subseteq> username ` set c'"
      by simp_all
    have 2: "\<forall>q \<in> set (ps[i := pr]). wf_proc q"
      using Cons.prems(2) 1(1) by (auto dest: set_update_subset_insert [THEN subsetD])
    have 3: "length (filter (succeeded u) (ps[i := pr])) + of_bool (succeeded u (ps ! i)) =
        length (filter (succeeded u) ps) + of_bool (succeeded u pr)"
      using filter_update_count [OF True] .
    have r: "run B v (i # sched) (c, ps) = run B v sched (c', ps[i := pr])"
      using True st by simp
    from Cons.IH [OF 1(2) 2]
    have ih: "distinct (map username (fst (run B v sched (c', ps[i := pr]))))"
      "\<forall>q \<in> set (snd (run B v sched (c', ps[i := pr]))). wf_proc q"
      "length (snd (run B v sched (c', ps[i := pr]))) = length ps"
      "stored_as u (fst (run B v sched (c', ps[i := pr]))) +
         length (filter (succeeded u) (ps[i := pr])) =
       stored_as u c' + length (filter (succeeded u) (snd (run B v sched (c', ps[i := pr]))))"
      "username ` set c' \<subseteq> username ` set (fst (run B v sched (c', ps[i := pr])))"
      by simp_all
    have sub: "username ` set c \<subseteq> username ` set (fst (run B v sched (c', ps[i := pr])))"
      using 1(4) ih(5) by (rule order_trans)
    have cnt: "stored_as u (fst (run B v sched (c', ps[i := pr]))) +
         length (filter (succeeded u) ps) =
       stored_as u c + length (filter (succeeded u) (snd (run B v sched (c', ps[i := pr]))))"
      using ih(4) 1(3) 3 by linarith
    show ?thesis
      unfolding r using ih(1,2,3) sub cnt by blast
  qed
qed

lemma contender_D:
  assumes "contender c0 u pr"
  shows "\<exists>p e ph. pr = (Register (Some u) (Some p), e, ph) \<and> truthy_value (Some p) \<and>
           6 \<le> length (as_string p) \<and> fresh_oid e \<notin> oid ` set c0 \<and>
           (\<forall>d. ph = Saving d \<longrightarrow> d = new_User e u (as_string p)) \<and>
           (\<forall>r. ph = Done r \<longrightarrow> status r \<in> {201, 409, 500})"
proof -
  obtain rq e ph where pr: "pr = (rq, e, ph)" by (cases pr)
  from assms pr show ?thesis
    by (auto simp: contender_def split: request.splits option.splits phase.splits)
qed

lemma contender_simps:
  "contender c0 u (Register (Some u') (Some p), e, Start) =
     (u' = u \<and> truthy_value (Some p) \<and> 6 \<le> length (as_string p) \<and>
      fresh_oid e \<notin> oid ` set c0)"
  "contender c0 u (Register (Some u') (Some p), e, Done r) =
     (u' = u \<and> truthy_value (Some p) \<and> 6 \<le> length (as_string p) \<and>
      fresh_oid e \<notin> oid ` set c0 \<and> status r \<in> {201, 409, 500})"
  "contender c0 u (Register (Some u') (Some p), e, Saving d) =
     (u' = u \<and> truthy_value (Some p) \<and> 6 \<le> length (as_string p) \<and>
      fresh_oid e \<notin> oid ` set c0 \<and> d = new_User e u (as_string p))"
  by (simp_all add: contender_def)

lemma contender_wf: "contender c0 u pr \<Longrightarrow> wf_proc pr"
  by (drule contender_D) (auto simp: wf_proc_def new_User_def split: phase.splits)

text \<open>
  One step of a contender, while the username is free only if the collection is still
  the initial one.
\<close>

lemma proc_step_contender:
  assumes u: "3 \<le> length u" "length u \<le> 30" "u \<notin> username ` set c0"
    and pr: "contender c0 u pr"
    and c: "u \<in> username ` set c \<or> c = c0 \<and> unanswered pr"
  shows "contender c0 u (fst (proc_step B v c pr)) \<and>
         (u \<in> username ` set (snd (proc_step B v c pr)) \<or>
          snd (proc_step B v c pr) = c0 \<and> c = c0 \<and> unanswered (fst (proc_step B v c pr)))"
proof -
  from contender_D [OF pr] obtain p e ph where pr': "pr = (Register (Some u) (Some p), e, ph)"
    and tp: "truthy_value (Some p)"
    and p: "6 \<le> length (as_string p)" and e: "fresh_oid e \<notin> oid ` set c0"
    and d: "\<forall>d. ph = Saving d \<longrightarrow> d = new_User e u (as_string p)"
    and r: "\<forall>r. ph = Done r \<longrightarrow> status r \<in> {201, 409, 500}"
    by blast
  from u tp have ne: "u \<noteq> []" "truthy_value (Some p)" by auto
  show ?thesis
  proof (cases ph)
    case Start
    show ?thesis
    proof (cases "u \<in> username ` set c")
      case True
      then obtain x where "findOne c u = Some x"
        using findOne_None_iff [of c u] by (cases "findOne c u") auto
      then have "proc_step B v c pr =
          ((Register (Some u) (Some p), e, Done (failure 409 ''Username already exists'')), c)"
        using pr' Start ne by (simp add: proc_step_def register_check_def truthy_def)
      with True tp p e show ?thesis
        by (simp add: contender_simps)
    next
      case False
      then have "findOne c u = None"
        by (simp add: findOne_None_iff)
      then have "proc_step B v c pr = ((Register (Some u) (Some p), e, Saving (new_User e u (as_string p))), c)"
        using pr' Start ne by (simp add: proc_step_def register_check_def truthy_def)
      with False c tp p e show ?thesis
        by (simp add: contender_simps unanswered_def)
    qed
  next
    case (Saving d')
    with d have d': "d' = new_User e u (as_string p)" by simp
    show ?thesis
    proof (cases "fresh_oid e \<in> oid ` set c \<or> u \<in> username ` set c")
      case True
      with e c have "u \<in> username ` set c" by auto
      moreover have "proc_step B v c pr =
          ((Register (Some u) (Some p), e,
            Done (failure 500 ''Internal server error during registration'')), c)"
        using pr' Saving d' True u p
        by (simp add: proc_step_def register_save_def save_new)
      ultimately show ?thesis
        using tp p e by (simp add: contender_simps)
    next
      case False
      then have "proc_step B v c pr =
          ((Register (Some u) (Some p), e,
            Done (registered \<lparr>doc = stored_user B e u (as_string p), isNew = False, modifiedPaths = {}\<rparr>)),
           c @ [stored_user B e u (as_string p)])"
        using pr' Saving d' u p
        by (simp add: proc_step_def register_save_def save_new)
      moreover have "username (stored_user B e u (as_string p)) = u"
        by (simp add: stored_user_def)
      ultimately show ?thesis
        using tp p e by (simp add: contender_simps)
    qed
  next
    case (Done r)
    then have "proc_step B v c pr = (pr, c)"
      using pr' by (simp add: proc_step_def)
    moreover from c Done pr' have "u \<in> username ` set c"
      by (simp add: unanswered_def)
    ultimately show ?thesis
      using pr by simp
  qed
qed


lemma run_contenders:
  assumes u: "3 \<le> length u" "length u \<le> 30" "u \<notin> username ` set c0"
    and "\<forall>pr \<in> set ps. contender c0 u pr"
    and "u \<in> username ` set c \<or> c = c0 \<and> (\<forall>pr \<in> set ps. unanswered pr)"
  shows "(\<forall>pr \<in> set (snd (run B v sched (c, ps))). contender c0 u pr) \<and>
         (u \<in> username ` set (fst (run B v sched (c, ps))) \<or>
          (\<forall>pr \<in> set (snd (run B v sched (c, ps))). unanswered pr))"
  using assms(4,5)
proof (induction sched arbitrary: c ps)
  case Nil
  then show ?case by auto
next
  case (Cons i sched)
  show ?case
  proof (cases "i < length ps")
    case False
    with Cons.IH [OF Cons.prems] show ?thesis by simp
  next
    case True
    obtain pr c' where st: "proc_step B v c (ps ! i) = (pr, c')"
      by (cases "proc_step B v c (ps ! i)")
    from True Cons.prems(1) have ct: "contender c0 u (ps ! i)" by simp
    from True Cons.prems(2) have "u \<in> username ` set c \<or> c = c0 \<and> unanswered (ps ! i)"
      by auto
    from proc_step_contender [OF u ct this, of B v] st
    have 1: "contender c0 u pr"
      and 2: "u \<in> username ` set c' \<or> c' = c0 \<and> c = c0 \<and> unanswered pr"
      by simp_all
    have 3: "\<forall>q \<in> set (ps[i := pr]). contender c0 u q"
      using Cons.prems(1) 1 by (auto dest: set_update_subset_insert [THEN subsetD])
    have 4: "u \<in> username ` set c' \<or> c' = c0 \<and> (\<forall>q \<in> set (ps[i := pr]). unanswered q)"
    proof (cases "u \<in> username ` set c'")
      case True
      then show ?thesis by simp
    next
      case False
      with 2 have c0: "c' = c0" "c = c0" "unanswered pr" by simp_all
      with Cons.prems(2) u(3) have "\<forall>q \<in> set ps. unanswered q" by auto
      with c0(3) have "\<forall>q \<in> set (ps[i := pr]). unanswered q"
        by (auto dest: set_update_subset_insert [THEN subsetD])
      with c0(1) show ?thesis by simp
    qed
    have r: "run B v (i # sched) (c, ps) = run B v sched (c', ps[i := pr])"
      using True st by simp
    from Cons.IH [OF 3 4] show ?thesis
      unfolding r .
  qed
qed


lemma contender_answer:
  "contender c0 u pr \<Longrightarrow> \<not> unanswered pr \<Longrightarrow>
     (case snd (snd pr) of Done r \<Rightarrow> status r \<in> {201, 409, 500} | _ \<Rightarrow> False)"
  by (drule contender_D) (auto simp: unanswered_def split: phase.splits)

text \<open>A request that runs alone goes the way of the handler.\<close>

lemma run_alone_register:
  "run B v [0, 0] (c, [(Register u p, e, Start)]) =
     (fst (snd (register B c e u p)), [(Register u p, e, Done (fst (register B c e u p)))])"
proof (cases "fst (register_check c e u p)")
  case (Inl r)
  then show ?thesis
    by (cases "register_check c e u p") (simp add: proc_step_def register_def)
next
  case (Inr d)
  then show ?thesis
    by (cases "register_check c e u p"; cases "register_save B c e d")
      (simp add: proc_step_def register_def)
qed

lemma run_alone_login:
  "run B v [0, 0] (c, [(Login u p, e, Start)]) =
     (fst (snd (login B v c e u p)), [(Login u p, e, Done (fst (login B v c e u p)))])"
proof (cases "fst (login_check B c e u p)")
  case (Inl r)
  then show ?thesis
    by (cases "login_check B c e u p") (simp add: proc_step_def login_def)
next
  case (Inr d)
  then show ?thesis
    by (cases "login_check B c e u p"; cases "login_save B v c e d")
      (simp add: proc_step_def login_def)
qed

text \<open>A registration after one that succeeded, for the same username, is answered 409.\<close>

lemma register_twice:
  assumes "status (fst (register B c e u p)) = 201" and "truthy_value p'"
  shows "fst (register B (fst (snd (register B c e u p))) e' u p') =
           failure 409 ''Username already exists''"
proof -
  from assms(1) have "truthy u" "fst (snd (register B c e u p)) = c @ [stored_user B e (the u) (as_string (the p))]"
    by (auto simp: register_cases split: if_splits)
  moreover have "username (stored_user B e (the u) (as_string (the p))) = the u"
    by (simp add: stored_user_def)
  ultimately show ?thesis
    using assms(2) by (simp add: register_cases)
qed

text \<open>The steps of the concrete runs.\<close>

lemma step_simps:
  "proc_step B v c (Register u p, e, Start) =
     (case fst (register_check c e u p) of
        Inl r \<Rightarrow> ((Register u p, e, Done r), c)
      | Inr d \<Rightarrow> ((Register u p, e, Saving d), c))"
  "proc_step B v c (Register u p, e, Saving d) =
     (case register_save B c e d of (r, c', evs) \<Rightarrow> ((Register u p, e, Done r), c'))"
  "proc_step B v c (Login u p, e, Start) =
     (case fst (login_check B c e u p) of
        Inl r \<Rightarrow> ((Login u p, e, Done r), c)
      | Inr d \<Rightarrow> ((Login u p, e, Saving d), c))"
  "proc_step B v c (Login u p, e, Saving d) =
     (case login_save B v c e d of (r, c', evs) \<Rightarrow> ((Login u p, e, Done r), c'))"
  "proc_step B v c (rq, e, Done r) = ((rq, e, Done r), c)"
  by (simp_all add: proc_step_def)

lemma two_alices_race:
  "run test_bcrypt Plain [0, 1] ([], two_alices) =
     ([], [(Register (Some ''alice'') (Some (Str ''secret1'')), test_env 1000 7,
            Saving (new_User (test_env 1000 7) ''alice'' ''secret1'')),
           (Register (Some ''alice'') (Some (Str ''hunter22'')), test_env 1001 8,
            Saving (new_User (test_env 1001 8) ''alice'' ''hunter22''))])"
  by (simp add: two_alices_def step_simps register_check_def truthy_def findOne_def)

text \<open>
  Two logins of one user in flight together: the one that read the clock first (5000)
  writes last, and \<^verbatim>\<open>lastLogin\<close> goes from 6000 back to 5000.
\<close>

lemma two_logins_reordered:
  "run test_bcrypt Plain [0, 1, 1, 0] (alice_store, two_logins) =
     ([alice (Some 5000)],
      [(Login (Some ''alice'') (Some (Str ''secret1'')), test_env 5000 8,
        Done (logged_in Plain \<lparr>doc = alice (Some 5000), isNew = False, modifiedPaths = {}\<rparr>)),
       (Login (Some ''alice'') (Some (Str ''secret1'')), test_env 6000 9,
        Done (logged_in Plain \<lparr>doc = alice (Some 6000), isNew = False, modifiedPaths = {}\<rparr>))])"
  by (simp add: two_logins_def alice_store_def step_simps login_check_def truthy_def findOne_def
      login_save_def save_loaded alice_def test_bcrypt_def test_env_def validate_def)

lemma start_wf: "snd (snd pr) = Start \<Longrightarrow> wf_proc pr \<and> \<not> succeeded u pr \<and> unanswered pr"
  by (cases pr) (simp add: wf_proc_simps succeeded_simps unanswered_def)

text \<open>
  C3, as amended. \<^verbatim>\<open>register\<close> checks that the username is free with a lookup of
  its own (\<^verbatim>\<open>User.findOne\<close>) and inserts afterwards; the insert is guarded by the unique
  index of the storage engine. However the lookups and writes of requests in flight
  together are interleaved, starting from a collection whose usernames are distinct: the
  usernames of the collection stay distinct; at most one registration of a username is
  answered 201, and none when the username was stored at the start; and of one or more
  registrations of a free username, each with a username of 3 to 30 characters, a password
  of at least 6 (or a value that is cast to such a string) and an unused \<^verbatim>\<open>_id\<close>,
  once all are answered exactly one was answered 201.
\<close>

theorem concurrent_registrations:
  assumes "distinct (map username c0)" and "\<forall>pr \<in> set ps0. snd (snd pr) = Start"
  shows "distinct (map username (fst (run B v sched (c0, ps0)))) \<and>
         length (filter (succeeded u) (snd (run B v sched (c0, ps0)))) \<le> 1 \<and>
         (u \<in> username ` set c0 \<longrightarrow> filter (succeeded u) (snd (run B v sched (c0, ps0))) = []) \<and>
         (3 \<le> length u \<and> length u \<le> 30 \<and> u \<notin> username ` set c0 \<and> ps0 \<noteq> [] \<and>
          (\<forall>pr \<in> set ps0. contender c0 u pr) \<and>
          (\<forall>pr \<in> set (snd (run B v sched (c0, ps0))). \<not> unanswered pr) \<longrightarrow>
            length (filter (succeeded u) (snd (run B v sched (c0, ps0)))) = 1)"
proof -
  let ?c = "fst (run B v sched (c0, ps0))" and ?ps = "snd (run B v sched (c0, ps0))"
  from assms(2) have wf: "\<forall>pr \<in> set ps0. wf_proc pr"
    and un: "\<forall>pr \<in> set ps0. unanswered pr"
    using start_wf by blast+
  from assms(2) have none: "filter (succeeded u) ps0 = []"
    using start_wf [of _ u] by (simp add: filter_empty_conv)
  from run_invariant [OF assms(1) wf, of B v sched u] none
  have d: "distinct (map username ?c)" and len: "length ?ps = length ps0"
    and cnt: "stored_as u ?c = stored_as u c0 + length (filter (succeeded u) ?ps)"
    by simp_all
  from stored_as_distinct [OF d, of u] cnt have le: "length (filter (succeeded u) ?ps) \<le> 1"
    by simp
  have taken: "filter (succeeded u) ?ps = []" if "u \<in> username ` set c0"
  proof -
    from stored_as_pos [OF that] stored_as_distinct [OF d, of u] cnt
    have "length (filter (succeeded u) ?ps) = 0" by linarith
    then show ?thesis by simp
  qed
  have one: "length (filter (succeeded u) ?ps) = 1"
    if u: "3 \<le> length u" "length u \<le> 30" "u \<notin> username ` set c0" and ne: "ps0 \<noteq> []"
      and ct: "\<forall>pr \<in> set ps0. contender c0 u pr" and fin: "\<forall>pr \<in> set ?ps. \<not> unanswered pr"
  proof -
    from run_contenders [OF u ct, of c0 B v sched] un
    have "u \<in> username ` set ?c \<or> (\<forall>pr \<in> set ?ps. unanswered pr)" by simp
    moreover from ne len have "?ps \<noteq> []" by auto
    then obtain q where "q \<in> set ?ps" by (cases ?ps) auto
    ultimately have "u \<in> username ` set ?c" using fin by blast
    from stored_as_pos [OF this] have "0 < stored_as u ?c" .
    moreover have "stored_as u c0 = 0"
      using u(3) by (simp add: stored_as_def count_list_0_iff)
    ultimately show ?thesis using cnt le by linarith
  qed
  from d le taken one show ?thesis by blast
qed

text \<open>Two registrations of \<^verbatim>\<open>alice\<close>, both lookups first.\<close>

lemma two_alices_end:
  "run test_bcrypt Plain [0, 1, 0, 1] ([], two_alices) =
     ([alice None],
      [(Register (Some ''alice'') (Some (Str ''secret1'')), test_env 1000 7,
        Done (registered \<lparr>doc = alice None, isNew = False, modifiedPaths = {}\<rparr>)),
       (Register (Some ''alice'') (Some (Str ''hunter22'')), test_env 1001 8,
        Done (failure 500 ''Internal server error during registration''))])"
  by (simp add: two_alices_def step_simps register_check_def truthy_def findOne_def
      register_save_def save_new stored_user_def alice_def test_bcrypt_def test_env_def)

theorem concurrent_registrations_witness:
  "distinct (map username (fst (run test_bcrypt Plain [0, 1, 0, 1] ([], two_alices)))) \<and>
   length (filter (succeeded ''alice'') (snd (run test_bcrypt Plain [0, 1, 0, 1] ([], two_alices)))) = 1"
proof -
  have 1: "distinct (map username ([] :: collection))" by simp
  have 2: "\<forall>pr \<in> set two_alices. snd (snd pr) = Start"
    by (simp add: two_alices_def)
  have 3: "\<forall>pr \<in> set two_alices. contender [] ''alice'' pr"
    by (simp add: two_alices_def contender_simps)
  have 4: "\<forall>pr \<in> set (snd (run test_bcrypt Plain [0, 1, 0, 1] ([], two_alices))). \<not> unanswered pr"
    unfolding two_alices_end by (simp add: unanswered_def)
  have 5: "two_alices \<noteq> []"
    by (simp add: two_alices_def)
  from concurrent_registrations [OF 1 2, of test_bcrypt Plain "[0, 1, 0, 1]" "''alice''"] 3 4 5
  show ?thesis by simp
qed

text \<open>
  C3 as stated fails: the check and the insert are two storage operations. Both lookups
  of two registrations of \<^verbatim>\<open>alice\<close> pass before either insert, with the collection
  still empty; the second insert is then refused by the unique index and the request is
  answered 500, not 409.
\<close>

theorem register_race_not_atomic:
  "run test_bcrypt Plain [0, 1] ([], two_alices) =
     ([], [(Register (Some ''alice'') (Some (Str ''secret1'')), test_env 1000 7,
            Saving (new_User (test_env 1000 7) ''alice'' ''secret1'')),
           (Register (Some ''alice'') (Some (Str ''hunter22'')), test_env 1001 8,
            Saving (new_User (test_env 1001 8) ''alice'' ''hunter22''))]) \<and>
   answers (snd (run test_bcrypt Plain [0, 1, 0, 1] ([], two_alices))) = [Some 201, Some 500]"
  unfolding two_alices_race two_alices_end by (simp add: answers_def)

text \<open>
  C4, at the input where the code departs from it. Three registrations of \<^verbatim>\<open>bob\<close>
  are in flight together; the lookups of the first two pass before either insert, the
  third starts after the first has inserted. One document is stored and exactly one
  request is answered 201, but the second, refused by the unique index at its insert, is
  answered 500 by the \<^verbatim>\<open>catch\<close>; only the third, whose lookup finds the document,
  is answered 409.
\<close>

theorem register_race_loser_500:
  "answers (snd (run test_bcrypt Plain [0, 1, 0, 1, 2, 2] ([], three_bobs))) =
     [Some 201, Some 500, Some 409] \<and>
   map username (fst (run test_bcrypt Plain [0, 1, 0, 1, 2, 2] ([], three_bobs))) = [''bob'']"
  by (simp add: three_bobs_def step_simps register_check_def truthy_def findOne_def
      register_save_def save_new stored_user_def answers_def)

text \<open>Such registrations are answered 201, 409 or 500 only.\<close>

lemma concurrent_registrations_answers:
  assumes "3 \<le> length u" "length u \<le> 30" "u \<notin> username ` set c0"
    and "\<forall>pr \<in> set ps0. contender c0 u pr \<and> snd (snd pr) = Start"
    and "pr \<in> set (snd (run B v sched (c0, ps0)))" "snd (snd pr) = Done r"
  shows "status r \<in> {201, 409, 500}"
proof -
  from assms(4) have ct: "\<forall>pr \<in> set ps0. contender c0 u pr"
    and "\<forall>pr \<in> set ps0. unanswered pr"
    using start_wf by blast+
  with run_contenders [OF assms(1-3) ct, of c0 B v sched] assms(5)
  have "contender c0 u pr" by simp
  from contender_D [OF this] assms(6) show ?thesis by auto
qed

end
